theory Spec2Isabelle
  imports Complex_Main "HOL-Library.Multiset"
begin

section \<open>Strings\<close>

text \<open>
  A Python \<^verbatim>\<open>str\<close> is a sequence of Unicode code points: \<^verbatim>\<open>len\<close> counts code points and
  the regular expressions of the program work on code points. A string is therefore a list of
  code points (natural numbers); the literals of the program are written out as such.
\<close>

type_synonym ustr = "nat list"

text \<open>
  \<^verbatim>\<open>str.isspace\<close>, which is also the class \<^verbatim>\<open>\s\<close> of a \<^verbatim>\<open>str\<close> pattern and what
  \<^verbatim>\<open>str.strip()\<close> removes: U+0009..U+000D, U+001C..U+0020, U+0085, U+00A0, U+1680,
  U+2000..U+200A, U+2028, U+2029, U+202F, U+205F, U+3000.
\<close>

definition isspace :: "nat \<Rightarrow> bool" where
  "isspace c \<longleftrightarrow>
     (9 \<le> c \<and> c \<le> 13) \<or> (28 \<le> c \<and> c \<le> 32) \<or> c = 133 \<or> c = 160 \<or> c = 5760 \<or>
     (8192 \<le> c \<and> c \<le> 8202) \<or> c = 8232 \<or> c = 8233 \<or> c = 8239 \<or> c = 8287 \<or> c = 12288"

text \<open>\<^verbatim>\<open>a.startswith(p)\<close>, \<^verbatim>\<open>p in a\<close> and \<^verbatim>\<open>a.replace(p, b, 1)\<close> on strings.\<close>

fun startswith :: "'a list \<Rightarrow> 'a list \<Rightarrow> bool" where
  "startswith [] s = True"
| "startswith (p # ps) [] = False"
| "startswith (p # ps) (c # cs) = (p = c \<and> startswith ps cs)"

fun contains :: "'a list \<Rightarrow> 'a list \<Rightarrow> bool" where
  "contains p [] = (p = [])"
| "contains p (c # cs) = (startswith p (c # cs) \<or> contains p cs)"

fun replace1 :: "'a list \<Rightarrow> 'a list \<Rightarrow> 'a list \<Rightarrow> 'a list" where
  "replace1 p b [] = (if p = [] then b else [])"
| "replace1 p b (c # cs) =
     (if startswith p (c # cs) then b @ drop (length p) (c # cs) else c # replace1 p b cs)"

text \<open>The number of positions at which \<open>p\<close> occurs in a string.\<close>

fun occurrences :: "'a list \<Rightarrow> 'a list \<Rightarrow> nat" where
  "occurrences p [] = (if p = [] then 1 else 0)"
| "occurrences p (c # cs) = (if startswith p (c # cs) then 1 else 0) + occurrences p cs"

text \<open>\<^verbatim>\<open>s.strip()\<close>: whitespace removed at both ends.\<close>

definition strip :: "ustr \<Rightarrow> ustr" where
  "strip s = rev (dropWhile isspace (rev (dropWhile isspace s)))"

section \<open>text_processor.py\<close>

text \<open>
  \<^verbatim>\<open>WHITESPACE_RE.sub(" ", text)\<close> with \<^verbatim>\<open>WHITESPACE_RE = re.compile(r"[\u3000\s]+")\<close>:
  every maximal run of whitespace becomes one ASCII space (32).
\<close>

function whitespace_re_sub :: "ustr \<Rightarrow> ustr" where
  "whitespace_re_sub [] = []"
| "whitespace_re_sub (c # cs) =
     (if isspace c then 32 # whitespace_re_sub (dropWhile isspace cs)
      else c # whitespace_re_sub cs)"
  by pat_completeness auto
termination
  by (relation "measure length") (auto simp: less_Suc_eq_le length_dropWhile_le)

text \<open>\<^verbatim>\<open>text.replace("\u00A0", " ")\<close>: every U+00A0 becomes a space.\<close>

definition replace_nbsp :: "ustr \<Rightarrow> ustr" where
  "replace_nbsp s = map (\<lambda>c. if c = 160 then 32 else c) s"

definition normalize_text :: "ustr \<Rightarrow> ustr" where
  "normalize_text t = strip (replace_nbsp (whitespace_re_sub t))"

text \<open>
  The class \<^verbatim>\<open>\d\<close> of a \<^verbatim>\<open>str\<close> pattern is the Unicode category Nd, which is also what
  \<^verbatim>\<open>int()\<close> reads as decimal digits. The category consists of blocks of ten consecutive code
  points, the digits 0 to 9 of one script; \<open>digit_zeros\<close> lists the zero of every block
  (Unicode 14.0, the table of CPython 3.11).
\<close>

definition digit_zeros :: "nat list" where
  "digit_zeros =
    [48, 1632, 1776, 1984, 2406, 2534, 2662, 2790, 2918, 3046, 3174, 3302, 3430, 3558, 3664,
     3792, 3872, 4160, 4240, 6112, 6160, 6470, 6608, 6784, 6800, 6992, 7088, 7232, 7248, 42528,
     43216, 43264, 43472, 43504, 43600, 44016, 65296, 66720, 68912, 69734, 69872, 69942, 70096,
     70384, 70736, 70864, 71248, 71360, 71472, 71904, 72016, 72784, 73040, 73120, 92768, 92864,
     93008, 120782, 120792, 120802, 120812, 120822, 123200, 123632, 125264, 130032]"

definition digit_value :: "nat \<Rightarrow> nat option" where
  "digit_value c =
     (case filter (\<lambda>z. z \<le> c \<and> c < z + 10) digit_zeros of [] \<Rightarrow> None | z # _ \<Rightarrow> Some (c - z))"

definition isdecimal :: "nat \<Rightarrow> bool" where
  "isdecimal c \<longleftrightarrow> digit_value c \<noteq> None"

text \<open>
  \<^verbatim>\<open>int(m.group(0))\<close> on a run of decimal digits, and \<^verbatim>\<open>str(n)\<close> on a natural number.
  Python's integers are unbounded; the interpreter's configurable limit on the length of a
  decimal conversion (4300 digits by default since 3.11) is not modelled.
\<close>

definition int_of_digits :: "ustr \<Rightarrow> nat" where
  "int_of_digits s = foldl (\<lambda>n c. 10 * n + (case digit_value c of None \<Rightarrow> 0 | Some d \<Rightarrow> d)) 0 s"

fun str_nat :: "nat \<Rightarrow> ustr" where
  "str_nat n = (if n < 10 then [48 + n] else str_nat (n div 10) @ [48 + n mod 10])"

declare str_nat.simps [simp del]

text \<open>\<^verbatim>\<open>list(dict.fromkeys(xs))\<close>: duplicates removed, the first occurrence kept.\<close>

definition fromkeys :: "'a list \<Rightarrow> 'a list" where
  "fromkeys xs = rev (remdups (rev xs))"

text \<open>\<^verbatim>\<open>sep.join(xs)\<close>.\<close>

fun join :: "'a list \<Rightarrow> 'a list list \<Rightarrow> 'a list" where
  "join sep [] = []"
| "join sep [x] = x"
| "join sep (x # y # ys) = x @ sep @ join sep (y # ys)"

text \<open>\<^verbatim>\<open>xs.index(x)\<close>: the first position of \<open>x\<close>, \<open>None\<close> where Python raises ValueError.\<close>

fun index_of :: "'a list \<Rightarrow> 'a \<Rightarrow> nat option" where
  "index_of [] x = None"
| "index_of (y # ys) x = (if y = x then Some 0 else map_option Suc (index_of ys x))"

datatype error = IndexError | ValueError

section \<open>text_processor.py, continued\<close>

definition KEY_TERMS :: "ustr list" where
  "KEY_TERMS =
    [[19981, 24471], [24212, 24403], [21487, 20197], [24517, 39035], [31105, 27490],
     [25209, 20934], [22791, 26696], [32602, 27454], [36131, 20219], [20041, 21153]]"

text \<open>
  \<^verbatim>\<open>re.split(r"(?<=[...])", text)\<close>: the text is cut after every character of the class
  (U+3002, U+FF1B, U+FF01, U+FF1F, \<^verbatim>\<open>!\<close>, \<^verbatim>\<open>?\<close>); a cut at the very end leaves an empty last
  part (Python 3.7 and later split at empty matches).
\<close>

definition is_terminal :: "nat \<Rightarrow> bool" where
  "is_terminal c \<longleftrightarrow> c \<in> {12290, 65307, 65281, 65311, 33, 63}"

fun re_split_after :: "('a \<Rightarrow> bool) \<Rightarrow> 'a list \<Rightarrow> 'a list list" where
  "re_split_after P [] = [[]]"
| "re_split_after P (c # cs) =
     (if P c then [c] # re_split_after P cs
      else (case re_split_after P cs of [] \<Rightarrow> [[c]] | p # ps \<Rightarrow> (c # p) # ps))"

definition split_sentences :: "ustr \<Rightarrow> ustr list" where
  "split_sentences t =
     map strip (filter (\<lambda>p. p \<noteq> [] \<and> strip p \<noteq> []) (re_split_after is_terminal t))"

text \<open>\<^verbatim>\<open>NUMBER_RE.findall(norm)\<close>: the maximal runs of decimal digits, left to right.\<close>

function findall_numbers :: "ustr \<Rightarrow> ustr list" where
  "findall_numbers [] = []"
| "findall_numbers (c # cs) =
     (if isdecimal c then takeWhile isdecimal (c # cs) # findall_numbers (dropWhile isdecimal cs)
      else findall_numbers cs)"
  by pat_completeness auto
termination
  by (relation "measure length") (auto simp: less_Suc_eq_le length_dropWhile_le)

text \<open>
  The entities of one article. The field \<^verbatim>\<open>dates\<close> of the source is read by no generator and
  is left out. The field \<^verbatim>\<open>nouns\<close> comes from the optional spaCy tokenizer, which is not part of
  the repository: the function computing it is the parameter \<open>nouns_of\<close> (constantly empty
  when spaCy is absent or fails).
\<close>

record entities =
  numbers :: "ustr list"
  terms :: "ustr list"
  nouns :: "ustr list"
  sentences :: "ustr list"

definition extract_entities :: "(ustr \<Rightarrow> ustr list) \<Rightarrow> ustr \<Rightarrow> entities" where
  "extract_entities nouns_of t =
     (let norm = normalize_text t in
      \<lparr> numbers = findall_numbers norm,
        terms = filter (\<lambda>k. contains k norm) KEY_TERMS,
        nouns = nouns_of norm,
        sentences = split_sentences norm \<rparr>)"

definition pick_keywords :: "entities \<Rightarrow> nat \<Rightarrow> ustr list" where
  "pick_keywords ents max_k = take max_k (fromkeys (terms ents @ nouns ents))"

section \<open>The random sources\<close>

text \<open>
  A \<^verbatim>\<open>random.Random\<close> object is modelled by the sequence of raw draws it will deliver (zeros
  once the list is used up); the Mersenne Twister behind it is not modelled. Each method
  takes the draws it needs and hands back the rest, as the methods of the library thread
  the generator's state: \<^verbatim>\<open>_randbelow(n)\<close> is one draw reduced to \<open>[0, n)\<close>,
  \<^verbatim>\<open>random()\<close> is a 53-bit fraction. The program has two such sources: the object
  \<^verbatim>\<open>rng\<close> passed to \<^verbatim>\<open>assemble_exam\<close>, and the hidden instance behind the module-level
  functions of \<^verbatim>\<open>random\<close>.
\<close>

type_synonym rng = "nat list"

definition next_raw :: "rng \<Rightarrow> nat \<times> rng" where
  "next_raw r = (case r of [] \<Rightarrow> (0, []) | x # xs \<Rightarrow> (x, xs))"

definition randbelow :: "nat \<Rightarrow> rng \<Rightarrow> nat \<times> rng" where
  "randbelow n r = (case next_raw r of (x, r') \<Rightarrow> (x mod n, r'))"

definition rng_random :: "rng \<Rightarrow> rat \<times> rng" where
  "rng_random r =
     (case next_raw r of (x, r') \<Rightarrow> (of_nat (x mod 9007199254740992) / 9007199254740992, r'))"

text \<open>\<^verbatim>\<open>rng.choice(seq)\<close>: IndexError on an empty sequence.\<close>

definition rng_choice :: "'a list \<Rightarrow> rng \<Rightarrow> error + ('a \<times> rng)" where
  "rng_choice seq r =
     (if length seq = 0 then Inl IndexError
      else (case randbelow (length seq) r of (j, r') \<Rightarrow> Inr (seq ! j, r')))"

text \<open>\<^verbatim>\<open>rng.randint(a, b)\<close> is \<^verbatim>\<open>randrange(a, b + 1)\<close>: ValueError on an empty range.\<close>

definition rng_randint :: "int \<Rightarrow> int \<Rightarrow> rng \<Rightarrow> error + (int \<times> rng)" where
  "rng_randint a b r =
     (if b + 1 - a \<le> 0 then Inl ValueError
      else (case randbelow (nat (b + 1 - a)) r of (j, r') \<Rightarrow> Inr (a + int j, r')))"

text \<open>
  \<^verbatim>\<open>rng.shuffle(x)\<close>:
  \<^verbatim>\<open>for i in reversed(range(1, len(x))): j = randbelow(i + 1); x[i], x[j] = x[j], x[i]\<close>.
\<close>

fun shuffle_from :: "nat \<Rightarrow> 'a list \<Rightarrow> rng \<Rightarrow> 'a list \<times> rng" where
  "shuffle_from 0 x r = (x, r)"
| "shuffle_from (Suc i) x r =
     (case randbelow (Suc i + 1) r of (j, r') \<Rightarrow>
        shuffle_from i ((x[Suc i := x ! j])[j := x ! Suc i]) r')"

definition rng_shuffle :: "'a list \<Rightarrow> rng \<Rightarrow> 'a list \<times> rng" where
  "rng_shuffle x r = shuffle_from (length x - 1) x r"

text \<open>
  \<^verbatim>\<open>rng.sample(population, k)\<close>: ValueError unless \<open>0 \<le> k \<le> n\<close>; then \<open>k\<close> selections
  without replacement,
  \<^verbatim>\<open>j = randbelow(n - i); result[i] = pool[j]; pool[j] = pool[n - i - 1]\<close>.
  The library selects this way for populations of at most 21 elements when \<open>k \<le> 5\<close> (as it
  is here); for larger ones it draws positions and rejects repeated ones, which yields \<open>k\<close>
  distinct positions as well and is modelled by the same function.
\<close>

fun sample_pool :: "nat \<Rightarrow> 'a list \<Rightarrow> nat \<Rightarrow> rng \<Rightarrow> 'a list \<times> rng" where
  "sample_pool 0 pool m r = ([], r)"
| "sample_pool (Suc k) pool m r =
     (case randbelow m r of (j, r') \<Rightarrow>
        (case sample_pool k (pool[j := pool ! (m - 1)]) (m - 1) r' of (rest, r'') \<Rightarrow>
           (pool ! j # rest, r'')))"

definition rng_sample :: "'a list \<Rightarrow> int \<Rightarrow> rng \<Rightarrow> error + ('a list \<times> rng)" where
  "rng_sample population k r =
     (if \<not> (0 \<le> k \<and> k \<le> int (length population)) then Inl ValueError
      else Inr (sample_pool (nat k) population (length population) r))"

text \<open>
  \<^verbatim>\<open>bisect.bisect_right(a, x, lo, hi)\<close>, and \<^verbatim>\<open>random.choices(population, weights=weights, k=k)\<close>
  of the module-level source. \<^verbatim>\<open>total = cum_weights[-1]\<close> raises IndexError when there are
  no weights; a total that is not positive is a ValueError, and so is a total that is not
  finite (\<^verbatim>\<open>if not _isfinite(total): raise ValueError\<close>). Weights are Python floats,
  modelled by rationals. A running sum that leaves the range of the doubles is an infinity in
  floating point and stays one, so the total is finite exactly when every running sum is
  within \<open>float_max\<close>, the largest double; the rounding of sums within the range is not
  modelled.
\<close>

definition float_max :: rat where
  "float_max = 2 ^ 1024 - 2 ^ 971"

definition isfinite_total :: "rat list \<Rightarrow> bool" where
  "isfinite_total cum_weights \<longleftrightarrow> list_all (\<lambda>c. \<bar>c\<bar> \<le> float_max) cum_weights"

function bisect_right :: "rat list \<Rightarrow> rat \<Rightarrow> nat \<Rightarrow> nat \<Rightarrow> nat" where
  "bisect_right a x lo hi =
     (if lo < hi then
        (let mid = (lo + hi) div 2 in
         if x < a ! mid then bisect_right a x lo mid else bisect_right a x (mid + 1) hi)
      else lo)"
  by pat_completeness auto
termination
  by (relation "measure (\<lambda>(a, x, lo, hi). hi - lo)") auto

declare bisect_right.simps [simp del]

fun accumulate_from :: "rat \<Rightarrow> rat list \<Rightarrow> rat list" where
  "accumulate_from acc [] = []"
| "accumulate_from acc (w # ws) = (acc + w) # accumulate_from (acc + w) ws"

fun choices_draw :: "nat \<Rightarrow> 'a list \<Rightarrow> rat list \<Rightarrow> rng \<Rightarrow> 'a list \<times> rng" where
  "choices_draw 0 population cum g = ([], g)"
| "choices_draw (Suc k) population cum g =
     (case rng_random g of (u, g') \<Rightarrow>
        (case choices_draw k population cum g' of (rest, g'') \<Rightarrow>
           (population ! bisect_right cum (u * last cum) 0 (length population - 1) # rest, g'')))"

definition choices :: "'a list \<Rightarrow> rat list \<Rightarrow> int \<Rightarrow> rng \<Rightarrow> error + ('a list \<times> rng)" where
  "choices population weights k g =
     (let cum_weights = accumulate_from 0 weights in
      if length cum_weights \<noteq> length population then Inl ValueError
      else if cum_weights = [] then Inl IndexError
      else if last cum_weights \<le> 0 then Inl ValueError
      else if \<not> isfinite_total cum_weights then Inl ValueError
      else Inr (choices_draw (nat k) population cum_weights g))"

section \<open>question_generator.py\<close>

text \<open>
  An article is a dict with the keys below (\<open>body\<close> is the key \<^verbatim>\<open>text\<close>, a reserved word
  here). The configuration is the dict of \<^verbatim>\<open>config.json\<close>: a field that is \<open>None\<close>, or a key
  that \<open>counts\<close> does not map, is a key absent from the dict.
\<close>

record article =
  source_file :: ustr
  article_no :: ustr
  title :: ustr
  body :: ustr
  clauses :: "ustr list"

record weights_cfg =
  important_articles :: "ustr list option"
  important_weight :: "rat option"
  default_weight :: "rat option"

record config =
  counts :: "string \<rightharpoonup> int"
  weights :: weights_cfg

definition counts_get :: "(string \<rightharpoonup> int) \<Rightarrow> string \<Rightarrow> int" where
  "counts_get m k = (case m k of None \<Rightarrow> 0 | Some v \<Rightarrow> v)"

datatype qtype = TrueFalse | Single | Multiple | Fill | Short

datatype answer = Str ustr | Letters "ustr list"

record question =
  qtype :: qtype
  question :: ustr
  options :: "ustr list option"
  answer :: answer
  source :: "ustr \<times> ustr"

record exam =
  true_false :: "question list"
  single :: "question list"
  multiple :: "question list"
  fill :: "question list"
  short :: "question list"

text \<open>The literals of the generators.\<close>

definition dui :: ustr where "dui = [23545]"
definition cuo :: ustr where "cuo = [38169]"

definition swaps :: "(ustr \<times> ustr) list" where
  "swaps =
    [([24212, 24403], [19981, 24471]), ([24517, 39035], [21487, 20197]),
     ([21487, 20197], [19981, 24471]), ([19981, 24471], [21487, 20197]),
     ([31105, 27490], [20801, 35768])]"

definition disclaimer :: ustr where
  "disclaimer = [65288, 26412, 21477, 21487, 33021, 20026, 38169, 35823, 38472, 36848, 65289]"

definition blank_marker :: ustr where
  "blank_marker = [92, 114, 117, 108, 101, 123, 50, 99, 109, 125, 123, 48, 46, 52, 112, 116, 125]"

definition single_correct :: "ustr \<Rightarrow> ustr" where
  "single_correct key =
     [20851, 20110, 8220] @ key @ [8221, 30340, 34920, 36848, 31526, 21512, 35813, 27861, 26465]"

definition distractor_of :: "ustr \<Rightarrow> ustr" where
  "distractor_of kw =
     [20851, 20110, 8220] @ kw @
     [8221, 30340, 34920, 36848, 19981, 31526, 21512, 35813, 27861, 26465]"

definition multiple_correct :: "ustr \<Rightarrow> ustr" where
  "multiple_correct kw =
     [19982, 8220] @ kw @
     [8221, 30456, 20851, 30340, 35268, 23450, 31526, 21512, 35813, 27861, 26465]"

definition single_qtext :: "ustr \<Rightarrow> ustr \<Rightarrow> ustr" where
  "single_qtext no stem =
     [20381, 25454] @ no @
     [65292, 19979, 21015, 21738, 19968, 39033, 26159, 27491, 30830, 30340, 65311, 10] @ stem"

definition multiple_qtext :: "ustr \<Rightarrow> ustr \<Rightarrow> ustr" where
  "multiple_qtext no stem =
     [20381, 25454] @ no @
     [65292, 19979, 21015, 21738, 20123, 39033, 26159, 27491, 30830, 30340, 65311, 10] @ stem"

definition short_qtext :: "ustr \<Rightarrow> ustr" where
  "short_qtext no =
     [31616, 36848] @ no @
     [30340, 20027, 35201, 20869, 23481, 25110, 31435, 27861, 30446, 30340, 12290]"

text \<open>\<^verbatim>\<open>chr(ord('A') + i)\<close>.\<close>

definition letter :: "nat \<Rightarrow> ustr" where
  "letter i = [65 + i]"

subsection \<open>weighted_sample\<close>

text \<open>
  The loop that builds \<^verbatim>\<open>weights\<close>, then the draw. The draw is a call of the module-level
  \<^verbatim>\<open>random.choices\<close>: it takes its randomness from the module's source \<open>g\<close>, and
  \<^verbatim>\<open>weighted_sample\<close> has no parameter for another one.
\<close>

definition article_weights :: "article list \<Rightarrow> weights_cfg \<Rightarrow> rat list" where
  "article_weights articles weights_cfg =
     (let imp_list = set (case important_articles weights_cfg of None \<Rightarrow> [] | Some l \<Rightarrow> l);
          imp_w = (case important_weight weights_cfg of None \<Rightarrow> 1 | Some w \<Rightarrow> w);
          default_w = (case default_weight weights_cfg of None \<Rightarrow> 1 | Some w \<Rightarrow> w)
      in map (\<lambda>a. if article_no a \<in> imp_list then imp_w else default_w) articles)"

definition weighted_sample ::
    "article list \<Rightarrow> weights_cfg \<Rightarrow> int \<Rightarrow> rng \<Rightarrow> error + (article list \<times> rng)" where
  "weighted_sample articles weights_cfg k g =
     (let population = [0..<length articles] in
      case choices population (article_weights articles weights_cfg)
             (min k (max 1 (int (length population)))) g of
        Inl e \<Rightarrow> Inl e
      | Inr (chosen_idx, g') \<Rightarrow> Inr (map (\<lambda>i. articles ! i) chosen_idx, g'))"

subsection \<open>make_true_false and negate_statement\<close>

text \<open>
  \<^verbatim>\<open>for a, b in swaps: if a in s: return s.replace(a, b, 1)\<close>; \<open>None\<close> when the loop ends
  without returning.
\<close>

fun try_swaps :: "(ustr \<times> ustr) list \<Rightarrow> ustr \<Rightarrow> ustr option" where
  "try_swaps [] s = None"
| "try_swaps ((a, b) # rest) s = (if contains a s then Some (replace1 a b s) else try_swaps rest s)"

text \<open>\<^verbatim>\<open>re.search(r"\d+", s)\<close>: start and end of the first maximal run of decimal digits.\<close>

definition search_number :: "ustr \<Rightarrow> (nat \<times> nat) option" where
  "search_number s =
     (let start = length (takeWhile (\<lambda>c. \<not> isdecimal c) s) in
      if start = length s then None
      else Some (start, start + length (takeWhile isdecimal (drop start s))))"

definition negate_statement :: "ustr \<Rightarrow> ustr" where
  "negate_statement s =
     (case try_swaps swaps s of
        Some t \<Rightarrow> t
      | None \<Rightarrow>
          (case search_number s of
             Some (m_start, m_end) \<Rightarrow>
               (let num = int_of_digits (take (m_end - m_start) (drop m_start s)) in
                take m_start s @ str_nat (num + 1) @ drop m_end s)
           | None \<Rightarrow> s @ disclaimer))"

text \<open>
  The state of the loops of \<^verbatim>\<open>make_true_false\<close>: \<^verbatim>\<open>results\<close>, \<^verbatim>\<open>seen\<close> and the random
  source. The inner loop runs over the sentences of one article, the outer loop over the
  articles; both leave at \<^verbatim>\<open>len(results) >= count\<close>.
\<close>

fun true_false_sentences ::
    "article \<Rightarrow> int \<Rightarrow> ustr list \<Rightarrow> question list \<times> ustr set \<times> rng \<Rightarrow>
     question list \<times> ustr set \<times> rng" where
  "true_false_sentences art cnt [] st = st"
| "true_false_sentences art cnt (sent # rest) (results, seen, rng) =
     (if int (length results) \<ge> cnt then (results, seen, rng)
      else if sent \<in> seen \<or> length sent < 6 then true_false_sentences art cnt rest (results, seen, rng)
      else (case rng_random rng of (u, rng') \<Rightarrow>
        (let flip = (u < 1 / 2);
             q = (if flip then negate_statement sent else sent)
         in true_false_sentences art cnt rest
              (results @ [\<lparr> qtype = TrueFalse, question = q, options = Some [dui, cuo],
                            answer = Str (if \<not> flip then dui else cuo),
                            source = (source_file art, article_no art) \<rparr>],
               insert sent seen, rng'))))"

fun true_false_articles ::
    "(ustr \<Rightarrow> ustr list) \<Rightarrow> int \<Rightarrow> article list \<Rightarrow> question list \<times> ustr set \<times> rng \<Rightarrow>
     question list \<times> ustr set \<times> rng" where
  "true_false_articles nouns_of cnt [] st = st"
| "true_false_articles nouns_of cnt (art # arts) st =
     (case true_false_sentences art cnt (sentences (extract_entities nouns_of (body art))) st of
        (results, seen, rng) \<Rightarrow>
          if int (length results) \<ge> cnt then (results, seen, rng)
          else true_false_articles nouns_of cnt arts (results, seen, rng))"

definition make_true_false ::
    "(ustr \<Rightarrow> ustr list) \<Rightarrow> article list \<Rightarrow> int \<Rightarrow> rng \<Rightarrow> question list \<times> rng" where
  "make_true_false nouns_of arts cnt rng =
     (case true_false_articles nouns_of cnt arts ([], {}, rng) of
        (results, seen, rng') \<Rightarrow> (results, rng'))"

subsection \<open>The distractor pool\<close>

definition build_distractor_pool :: "(ustr \<Rightarrow> ustr list) \<Rightarrow> article list \<Rightarrow> ustr list" where
  "build_distractor_pool nouns_of arts =
     fromkeys (concat (map (\<lambda>art. map distractor_of
                                (pick_keywords (extract_entities nouns_of (body art)) 4)) arts))"

definition sample_distractors ::
    "ustr list \<Rightarrow> ustr \<Rightarrow> int \<Rightarrow> rng \<Rightarrow> error + (ustr list \<times> rng)" where
  "sample_distractors pool key n rng =
     (let candidates = filter (\<lambda>p. \<not> contains key p) pool;
          candidates = (if int (length candidates) < n then pool else candidates)
      in rng_sample candidates (min n (int (length candidates))) rng)"

text \<open>
  The stem of a choice question:
  \<^verbatim>\<open>rng.choice(entities["sentences"]) if entities["sentences"] else art["text"][:50]\<close>.
\<close>

definition choose_stem :: "entities \<Rightarrow> article \<Rightarrow> rng \<Rightarrow> error + (ustr \<times> rng)" where
  "choose_stem ents art rng =
     (if sentences ents \<noteq> [] then rng_choice (sentences ents) rng
      else Inr (take 50 (body art), rng))"

subsection \<open>make_single_choice\<close>

text \<open>
  The body of the loop for one article, up to the question text: \<open>None\<close> is the
  \<^verbatim>\<open>continue\<close> of an article without keywords. The loop itself keeps \<^verbatim>\<open>results\<close>,
  \<^verbatim>\<open>seen_q\<close> and the random source.
\<close>

definition single_choice_article ::
    "(ustr \<Rightarrow> ustr list) \<Rightarrow> ustr list \<Rightarrow> article \<Rightarrow> rng \<Rightarrow> error + (question option \<times> rng)" where
  "single_choice_article nouns_of distractor_pool art rng =
     (let ents = extract_entities nouns_of (body art);
          kws = pick_keywords ents 5
      in if kws = [] then Inr (None, rng)
         else
          (case choose_stem ents art rng of Inl e \<Rightarrow> Inl e | Inr (stem, r1) \<Rightarrow>
          (case rng_choice kws r1 of Inl e \<Rightarrow> Inl e | Inr (key, r2) \<Rightarrow>
          (let correct = single_correct key in
          (case sample_distractors distractor_pool key 3 r2 of Inl e \<Rightarrow> Inl e
           | Inr (distractors, r3) \<Rightarrow>
          (case rng_shuffle (correct # distractors) r3 of (opts, r4) \<Rightarrow>
          (case index_of opts correct of None \<Rightarrow> Inl ValueError | Some ans \<Rightarrow>
             Inr (Some \<lparr> qtype = Single, question = single_qtext (article_no art) stem,
                          options = Some opts, answer = Str (letter ans),
                          source = (source_file art, article_no art) \<rparr>, r4))))))))"

fun single_choice_loop ::
    "(ustr \<Rightarrow> ustr list) \<Rightarrow> ustr list \<Rightarrow> int \<Rightarrow> article list \<Rightarrow>
     question list \<times> ustr set \<times> rng \<Rightarrow> error + (question list \<times> ustr set \<times> rng)" where
  "single_choice_loop nouns_of pool cnt [] st = Inr st"
| "single_choice_loop nouns_of pool cnt (art # arts) (results, seen_q, rng) =
     (if int (length results) \<ge> cnt then Inr (results, seen_q, rng)
      else (case single_choice_article nouns_of pool art rng of
          Inl e \<Rightarrow> Inl e
        | Inr (None, rng') \<Rightarrow> single_choice_loop nouns_of pool cnt arts (results, seen_q, rng')
        | Inr (Some q, rng') \<Rightarrow>
            if question q \<in> seen_q
            then single_choice_loop nouns_of pool cnt arts (results, seen_q, rng')
            else single_choice_loop nouns_of pool cnt arts
                   (results @ [q], insert (question q) seen_q, rng')))"

definition make_single_choice ::
    "(ustr \<Rightarrow> ustr list) \<Rightarrow> article list \<Rightarrow> int \<Rightarrow> rng \<Rightarrow> error + (question list \<times> rng)" where
  "make_single_choice nouns_of arts cnt rng =
     (case single_choice_loop nouns_of (build_distractor_pool nouns_of arts) cnt arts
             ([], {}, rng) of
        Inl e \<Rightarrow> Inl e
      | Inr (results, seen_q, rng') \<Rightarrow> Inr (results, rng'))"

subsection \<open>make_multiple_choice\<close>

definition multiple_choice_article ::
    "(ustr \<Rightarrow> ustr list) \<Rightarrow> ustr list \<Rightarrow> article \<Rightarrow> rng \<Rightarrow> error + (question option \<times> rng)" where
  "multiple_choice_article nouns_of distractor_pool art rng =
     (let ents = extract_entities nouns_of (body art);
          kws = pick_keywords ents 6
      in if length kws < 2 then Inr (None, rng)
         else
          (case choose_stem ents art rng of Inl e \<Rightarrow> Inl e | Inr (stem, r1) \<Rightarrow>
          (case rng_randint 2 (min 4 (int (length kws))) r1 of Inl e \<Rightarrow> Inl e
           | Inr (num_correct, r2) \<Rightarrow>
          (case rng_sample kws num_correct r2 of Inl e \<Rightarrow> Inl e | Inr (chosen, r3) \<Rightarrow>
          (let correct = map multiple_correct chosen in
          (case sample_distractors distractor_pool (join [124] kws) (5 - num_correct) r3 of
             Inl e \<Rightarrow> Inl e
           | Inr (distractors, r4) \<Rightarrow>
          (case rng_shuffle (correct @ distractors) r4 of (opts, r5) \<Rightarrow>
             Inr (Some \<lparr> qtype = Multiple, question = multiple_qtext (article_no art) stem,
                          options = Some opts,
                          answer = Letters (map letter
                                     (filter (\<lambda>i. opts ! i \<in> set correct) [0..<length opts])),
                          source = (source_file art, article_no art) \<rparr>, r5))))))))"

fun multiple_choice_loop ::
    "(ustr \<Rightarrow> ustr list) \<Rightarrow> ustr list \<Rightarrow> int \<Rightarrow> article list \<Rightarrow>
     question list \<times> rng \<Rightarrow> error + (question list \<times> rng)" where
  "multiple_choice_loop nouns_of pool cnt [] st = Inr st"
| "multiple_choice_loop nouns_of pool cnt (art # arts) (results, rng) =
     (if int (length results) \<ge> cnt then Inr (results, rng)
      else (case multiple_choice_article nouns_of pool art rng of
          Inl e \<Rightarrow> Inl e
        | Inr (None, rng') \<Rightarrow> multiple_choice_loop nouns_of pool cnt arts (results, rng')
        | Inr (Some q, rng') \<Rightarrow>
            multiple_choice_loop nouns_of pool cnt arts (results @ [q], rng')))"

definition make_multiple_choice ::
    "(ustr \<Rightarrow> ustr list) \<Rightarrow> article list \<Rightarrow> int \<Rightarrow> rng \<Rightarrow> error + (question list \<times> rng)" where
  "make_multiple_choice nouns_of arts cnt rng =
     multiple_choice_loop nouns_of (build_distractor_pool nouns_of arts) cnt arts ([], rng)"

subsection \<open>make_fill_blank\<close>

text \<open>
  The text that is blanked: the chosen sentence, or the whole article text when the
  sentence does not contain the target.
\<close>

definition blank_text :: "ustr \<Rightarrow> ustr \<Rightarrow> article \<Rightarrow> ustr" where
  "blank_text target sent art = (if \<not> contains target sent then body art else sent)"

definition fill_blank_article ::
    "(ustr \<Rightarrow> ustr list) \<Rightarrow> article \<Rightarrow> rng \<Rightarrow> error + (question option \<times> rng)" where
  "fill_blank_article nouns_of art rng =
     (let ents = extract_entities nouns_of (body art);
          candidates = terms ents @ numbers ents
      in if candidates = [] then Inr (None, rng)
         else
          (case rng_choice candidates rng of Inl e \<Rightarrow> Inl e | Inr (target, r1) \<Rightarrow>
          (case (if sentences ents \<noteq> [] then rng_choice (sentences ents) r1
                 else Inr (body art, r1)) of Inl e \<Rightarrow> Inl e | Inr (sent, r2) \<Rightarrow>
             Inr (Some \<lparr> qtype = Fill,
                          question = replace1 target blank_marker (blank_text target sent art),
                          options = None, answer = Str target,
                          source = (source_file art, article_no art) \<rparr>, r2))))"

fun fill_blank_loop ::
    "(ustr \<Rightarrow> ustr list) \<Rightarrow> int \<Rightarrow> article list \<Rightarrow> question list \<times> rng \<Rightarrow>
     error + (question list \<times> rng)" where
  "fill_blank_loop nouns_of cnt [] st = Inr st"
| "fill_blank_loop nouns_of cnt (art # arts) (results, rng) =
     (if int (length results) \<ge> cnt then Inr (results, rng)
      else (case fill_blank_article nouns_of art rng of
          Inl e \<Rightarrow> Inl e
        | Inr (None, rng') \<Rightarrow> fill_blank_loop nouns_of cnt arts (results, rng')
        | Inr (Some q, rng') \<Rightarrow> fill_blank_loop nouns_of cnt arts (results @ [q], rng')))"

definition make_fill_blank ::
    "(ustr \<Rightarrow> ustr list) \<Rightarrow> article list \<Rightarrow> int \<Rightarrow> rng \<Rightarrow> error + (question list \<times> rng)" where
  "make_fill_blank nouns_of arts cnt rng = fill_blank_loop nouns_of cnt arts ([], rng)"

subsection \<open>make_short_answers\<close>

fun short_answers_loop ::
    "int \<Rightarrow> article list \<Rightarrow> question list \<times> ustr set \<Rightarrow> question list \<times> ustr set" where
  "short_answers_loop cnt [] st = st"
| "short_answers_loop cnt (art # arts) (results, taken) =
     (if int (length results) \<ge> cnt then (results, taken)
      else if article_no art \<in> taken then short_answers_loop cnt arts (results, taken)
      else short_answers_loop cnt arts
             (results @ [\<lparr> qtype = Short, question = short_qtext (article_no art),
                           options = None, answer = Str (body art),
                           source = (source_file art, article_no art) \<rparr>],
              insert (article_no art) taken))"

definition make_short_answers :: "article list \<Rightarrow> int \<Rightarrow> question list" where
  "make_short_answers arts cnt = fst (short_answers_loop cnt arts ([], {}))"

subsection \<open>assemble_exam\<close>

text \<open>
  The four calls of \<^verbatim>\<open>weighted_sample\<close> at the head of \<^verbatim>\<open>assemble_exam\<close>, in their order;
  they thread the module-level source \<open>g\<close>.
\<close>

definition sample_articles ::
    "article list \<Rightarrow> config \<Rightarrow> rng \<Rightarrow>
     error + ((article list \<times> article list \<times> article list \<times> article list) \<times> rng)" where
  "sample_articles articles cfg g =
     (case weighted_sample articles (weights cfg) (counts_get (counts cfg) ''true_false'' * 2) g of
        Inl e \<Rightarrow> Inl e | Inr (tf_arts, g1) \<Rightarrow>
     (case weighted_sample articles (weights cfg) (counts_get (counts cfg) ''single_choice'' * 2) g1 of
        Inl e \<Rightarrow> Inl e | Inr (sc_arts, g2) \<Rightarrow>
     (case weighted_sample articles (weights cfg) (counts_get (counts cfg) ''multiple_choice'' * 2) g2 of
        Inl e \<Rightarrow> Inl e | Inr (mc_arts, g3) \<Rightarrow>
     (case weighted_sample articles (weights cfg) (counts_get (counts cfg) ''fill_blank'' * 2) g3 of
        Inl e \<Rightarrow> Inl e | Inr (fb_arts, g4) \<Rightarrow>
          Inr ((tf_arts, sc_arts, mc_arts, fb_arts), g4)))))"

definition short_candidates :: "article list \<Rightarrow> config \<Rightarrow> article list" where
  "short_candidates articles cfg =
     (let short_important =
            filter (\<lambda>a. article_no a \<in>
                          set (case important_articles (weights cfg) of None \<Rightarrow> [] | Some l \<Rightarrow> l))
              articles
      in if int (length short_important) < counts_get (counts cfg) ''short_answer''
         then take (nat (counts_get (counts cfg) ''short_answer'')) (short_important @ articles)
         else short_important)"

text \<open>
  The result carries the exam and both random sources as the call leaves them: \<open>rng\<close>,
  the object passed in, and \<open>g\<close>, the module-level one.
\<close>

definition assemble_exam ::
    "(ustr \<Rightarrow> ustr list) \<Rightarrow> article list \<Rightarrow> config \<Rightarrow> rng \<Rightarrow> rng \<Rightarrow>
     error + (exam \<times> rng \<times> rng)" where
  "assemble_exam nouns_of articles cfg rng g =
     (case sample_articles articles cfg g of
        Inl e \<Rightarrow> Inl e
      | Inr ((tf_arts, sc_arts, mc_arts, fb_arts), g') \<Rightarrow>
     (case make_true_false nouns_of tf_arts (counts_get (counts cfg) ''true_false'') rng of
        (tf, r1) \<Rightarrow>
     (case make_single_choice nouns_of sc_arts (counts_get (counts cfg) ''single_choice'') r1 of
        Inl e \<Rightarrow> Inl e | Inr (sc, r2) \<Rightarrow>
     (case make_multiple_choice nouns_of mc_arts (counts_get (counts cfg) ''multiple_choice'') r2 of
        Inl e \<Rightarrow> Inl e | Inr (mc, r3) \<Rightarrow>
     (case make_fill_blank nouns_of fb_arts (counts_get (counts cfg) ''fill_blank'') r3 of
        Inl e \<Rightarrow> Inl e | Inr (fb, r4) \<Rightarrow>
          Inr (\<lparr> true_false = tf, single = sc, multiple = mc, fill = fb,
                  short = make_short_answers (short_candidates articles cfg)
                            (counts_get (counts cfg) ''short_answer'') \<rparr>, r4, g'))))))"

section \<open>Auxiliary predicates of the proofs\<close>

text \<open>A string in which every whitespace character is a single, isolated ASCII space.\<close>

fun collapsed :: "ustr \<Rightarrow> bool" where
  "collapsed [] = True"
| "collapsed (c # cs) =
     ((isspace c \<longrightarrow> c = 32 \<and> (case cs of [] \<Rightarrow> True | d # _ \<Rightarrow> \<not> isspace d)) \<and> collapsed cs)"

text \<open>
  A true/false question made from the sentence \<open>b\<close>: the sentence itself with the answer
  U+5BF9, or its negation with the answer U+9519.
\<close>

definition tf_derived :: "ustr \<Rightarrow> question \<Rightarrow> bool" where
  "tf_derived b q \<longleftrightarrow>
     qtype q = TrueFalse \<and> options q = Some [dui, cuo] \<and>
     ((question q = b \<and> answer q = Str dui) \<or>
      (question q = negate_statement b \<and> answer q = Str cuo))"

text \<open>
  Example articles, for evaluating the generators. The first has three sentences, the last of
  them shorter than 6 characters, and the key terms U+5E94 U+5F53 and U+7981 U+6B62; the second
  has one sentence and one key term; the text of the third contains the blank marker.
\<close>

definition example_article :: article where
  "example_article =
     \<lparr> source_file = [115, 46, 100, 111, 99, 120], article_no = [31532, 49, 26465], title = [],
       body = [20844, 27665, 24212, 24403, 36981, 23432, 27861, 24459, 12290, 31105, 27490, 28389, 29992, 26435, 21033, 12290, 22909, 12290],
       clauses = [] \<rparr>"

definition example_article_one_term :: article where
  "example_article_one_term =
     \<lparr> source_file = [115, 46, 100, 111, 99, 120], article_no = [31532, 50, 26465], title = [],
       body = [20844, 27665, 24212, 24403, 36981, 23432, 27861, 24459, 12290],
       clauses = [] \<rparr>"

definition example_article_marker :: article where
  "example_article_marker =
     \<lparr> source_file = [115, 46, 100, 111, 99, 120], article_no = [31532, 51, 26465], title = [],
       body = [92, 114, 117, 108, 101, 123, 50, 99, 109, 125, 123, 48, 46, 52, 112, 116, 125, 24212, 24403, 12290],
       clauses = [] \<rparr>"

text \<open>
  A well-formed single-choice question over a distractor pool: the answer is the one-character
  string of code point \<open>65 + i\<close> (the letter A for 0, B for 1, and so on), where \<open>i\<close> is the
  position of the one option that is the correct string of some keyword \<open>key\<close> of one of the
  articles; the options are pairwise different, and besides the correct string they are
  \<open>min(3, len(pool))\<close> entries of the pool, none of which contains the keyword when the pool
  has three entries without it.
\<close>

definition single_valid :: "ustr list \<Rightarrow> ustr set \<Rightarrow> question \<Rightarrow> bool" where
  "single_valid pool keys q \<longleftrightarrow>
     (\<exists>key opts i. key \<in> keys \<and> qtype q = Single \<and> options q = Some opts
        \<and> answer q = Str [65 + i] \<and> i < length opts \<and> opts ! i = single_correct key
        \<and> length (filter (\<lambda>opt. opt = single_correct key) opts) = 1
        \<and> distinct opts
        \<and> length opts = 1 + min 3 (length pool)
        \<and> 2 \<le> length opts \<and> length opts \<le> 4
        \<and> set opts \<subseteq> insert (single_correct key) (set pool)
        \<and> (3 \<le> length (filter (\<lambda>p. \<not> contains key p) pool) \<longrightarrow>
             (\<forall>opt \<in> set opts. opt \<noteq> single_correct key \<longrightarrow> \<not> contains key opt)))"

text \<open>
  A well-formed multiple-choice question: its options are a rearrangement of the correct
  strings of between 2 and 4 distinct keywords and of \<open>min(5 - c, len(pool))\<close> different
  entries of the pool, at least one, where \<open>c\<close> is the number of keywords; its answer lists,
  in increasing order, the one-character strings of code point \<open>65 + i\<close> (A for 0, B for 1,
  and so on) of exactly the positions \<open>i\<close> that hold a correct string.
\<close>

definition multiple_valid :: "ustr list \<Rightarrow> ustr set \<Rightarrow> question \<Rightarrow> bool" where
  "multiple_valid pool keys q \<longleftrightarrow>
     (\<exists>chosen ds opts. set chosen \<subseteq> keys \<and> distinct chosen
        \<and> 2 \<le> length chosen \<and> length chosen \<le> 4
        \<and> set ds \<subseteq> set pool \<and> ds \<noteq> [] \<and> length ds \<le> 3 \<and> distinct ds
        \<and> length ds = min (5 - length chosen) (length pool)
        \<and> qtype q = Multiple \<and> options q = Some opts
        \<and> mset opts = mset (map multiple_correct chosen @ ds)
        \<and> answer q = Letters (map (\<lambda>i. [65 + i])
              (filter (\<lambda>i. opts ! i \<in> set (map multiple_correct chosen)) [0..<length opts])))"

text \<open>
  A well-formed fill-blank question of an article: the answer is one of the article's
  candidate targets, and the question is a text of the article (its whole text or one of
  its sentences) that contains the target, with the first occurrence of the target replaced
  by the blank marker.
\<close>

definition fill_valid :: "(ustr \<Rightarrow> ustr list) \<Rightarrow> article \<Rightarrow> question \<Rightarrow> bool" where
  "fill_valid nouns_of art q \<longleftrightarrow>
     (\<exists>target sent pre post.
        qtype q = Fill \<and> options q = None \<and> answer q = Str target \<and> target \<noteq> []
        \<and> target \<in> set (terms (extract_entities nouns_of (body art))
                          @ numbers (extract_entities nouns_of (body art)))
        \<and> (sent = body art \<or> sent \<in> set (sentences (extract_entities nouns_of (body art))))
        \<and> sent = pre @ target @ post \<and> \<not> contains target (pre @ butlast target)
        \<and> question q = pre @ blank_marker @ post
        \<and> 1 \<le> occurrences blank_marker (question q)
        \<and> (contains blank_marker sent \<or> occurrences blank_marker (question q) = 1))"

text \<open>An example configuration: one true/false question, nothing else, default weights.\<close>

definition example_config :: config where
  "example_config =
     \<lparr> counts = [''true_false'' \<mapsto> 1],
         weights = \<lparr> important_articles = None, important_weight = None,
                     default_weight = None \<rparr> \<rparr>"

text \<open>
  Normalisation as the specification words it: the words of a text are its maximal runs of
  characters that are not whitespace, and the normal form is the words joined by single
  ASCII spaces (every run of whitespace between two words collapsed to one space, none left
  at the ends).
\<close>

fun ws_words :: "ustr \<Rightarrow> ustr list" where
  "ws_words [] = []"
| "ws_words (c # cs) =
     (if isspace c then ws_words cs
      else (case cs of
              [] \<Rightarrow> [[c]]
            | d # _ \<Rightarrow>
                if isspace d then [c] # ws_words cs
                else (case ws_words cs of [] \<Rightarrow> [[c]] | w # ws \<Rightarrow> (c # w) # ws)))"

declare ws_words.simps [simp del]

definition normalize_spec :: "ustr \<Rightarrow> ustr" where
  "normalize_spec t = join [32] (ws_words t)"

section \<open>Normalisation\<close>

lemma isspace_32: "isspace 32" by (simp add: isspace_def)
lemma isspace_160: "isspace 160" by (simp add: isspace_def)

lemma ws_sub_head: "whitespace_re_sub s = d # r \<Longrightarrow> isspace d \<Longrightarrow> s \<noteq> [] \<and> isspace (hd s)"
proof (cases s)
  case Nil
  assume "whitespace_re_sub s = d # r"
  with Nil show ?thesis by simp
next
  case (Cons c cs)
  assume a: "whitespace_re_sub s = d # r" and d: "isspace d"
  show ?thesis
  proof (cases "isspace c")
    case True with Cons show ?thesis by simp
  next
    case False
    with a Cons have "d = c" by simp
    with d False show ?thesis by simp
  qed
qed

lemma collapsed_ws_sub: "collapsed (whitespace_re_sub s)"
proof (induction s rule: whitespace_re_sub.induct)
  case 1 show ?case by simp
next
  case (2 c cs)
  show ?case
  proof (cases "isspace c")
    case True
    have "\<not> isspace d" if "whitespace_re_sub (dropWhile isspace cs) = d # r" for d r
    proof
      assume "isspace d"
      with that have "dropWhile isspace cs \<noteq> [] \<and> isspace (hd (dropWhile isspace cs))"
        by (rule ws_sub_head)
      then show False using hd_dropWhile[of isspace cs] by blast
    qed
    with True 2 show ?thesis by (auto split: list.splits)
  next
    case False
    with 2 show ?thesis by simp
  qed
qed

lemma ws_sub_collapsed: "collapsed s \<Longrightarrow> whitespace_re_sub s = s"
proof (induction s)
  case Nil show ?case by simp
next
  case (Cons c cs)
  then show ?case by (cases cs) auto
qed

lemma collapsed_spaces: "collapsed s \<Longrightarrow> c \<in> set s \<Longrightarrow> isspace c \<Longrightarrow> c = 32"
  by (induction s) auto

lemma nbsp_absent: "160 \<notin> set s \<Longrightarrow> replace_nbsp s = s"
  by (induction s) (auto simp: replace_nbsp_def)

lemma nbsp_collapsed: "collapsed s \<Longrightarrow> replace_nbsp s = s"
  using collapsed_spaces[of s 160] isspace_160 nbsp_absent by fastforce

lemma collapsed_tl: "collapsed (c # cs) \<Longrightarrow> collapsed cs" by simp

lemma collapsed_dropWhile: "collapsed s \<Longrightarrow> collapsed (dropWhile P s)"
  by (induction s) auto

lemma collapsed_append1: "collapsed (xs @ ys) \<Longrightarrow> collapsed xs"
proof (induction xs)
  case Nil show ?case by simp
next
  case (Cons c cs)
  then show ?case by (cases cs) (auto split: list.splits)
qed

lemma rstrip_prefix: "\<exists>zs. rev (dropWhile P (rev s)) @ zs = s"
proof -
  have "rev (takeWhile P (rev s) @ dropWhile P (rev s)) = s" by simp
  then show ?thesis unfolding rev_append by blast
qed

lemma collapsed_strip: "collapsed s \<Longrightarrow> collapsed (strip s)"
proof -
  assume a: "collapsed s"
  obtain zs where "strip s @ zs = dropWhile isspace s"
    unfolding strip_def using rstrip_prefix by blast
  with collapsed_dropWhile[OF a, of isspace] show ?thesis
    using collapsed_append1 by metis
qed

lemma strip_ends: "strip s \<noteq> [] \<Longrightarrow> \<not> isspace (hd (strip s)) \<and> \<not> isspace (last (strip s))"
proof -
  assume ne: "strip s \<noteq> []"
  let ?d = "dropWhile isspace s"
  let ?r = "dropWhile isspace (rev ?d)"
  have r: "?r \<noteq> []" using ne by (simp add: strip_def)
  then have l: "\<not> isspace (hd ?r)" using hd_dropWhile by blast
  have la: "last (strip s) = hd ?r" using r by (simp add: strip_def last_rev)
  obtain zs where z: "strip s @ zs = ?d" unfolding strip_def using rstrip_prefix by blast
  then have "hd (strip s) = hd ?d" using ne by (metis hd_append2)
  moreover have "?d \<noteq> []" using z ne by (metis append_is_Nil_conv)
  ultimately have "\<not> isspace (hd (strip s))" using hd_dropWhile by metis
  with l la show ?thesis by simp
qed

lemma strip_id: "s = [] \<or> (\<not> isspace (hd s) \<and> \<not> isspace (last s)) \<Longrightarrow> strip s = s"
proof (cases s)
  case Nil then show ?thesis by (simp add: strip_def)
next
  case (Cons c cs)
  assume "s = [] \<or> (\<not> isspace (hd s) \<and> \<not> isspace (last s))"
  with Cons have h: "\<not> isspace c" and l: "\<not> isspace (last s)" by auto
  have "dropWhile isspace s = s" using Cons h by simp
  moreover have "dropWhile isspace (rev s) = rev s"
  proof -
    obtain ys y where ys: "s = ys @ [y]" using Cons by (metis rev_exhaust list.distinct(1))
    with l show ?thesis by simp
  qed
  ultimately show ?thesis by (simp add: strip_def)
qed

lemma strip_strip: "strip (strip s) = strip s"
  using strip_id[of "strip s"] strip_ends[of s] by blast

lemma filter_ws_sub: "filter (\<lambda>c. \<not> isspace c) (whitespace_re_sub s) = filter (\<lambda>c. \<not> isspace c) s"
proof (induction s rule: whitespace_re_sub.induct)
  case 1 show ?case by simp
next
  case (2 c cs)
  have "filter (\<lambda>c. \<not> isspace c) (dropWhile isspace cs) = filter (\<lambda>c. \<not> isspace c) cs"
    by (induction cs) auto
  with 2 show ?case by (auto simp: isspace_32)
qed

lemma filter_strip: "filter (\<lambda>c. \<not> isspace c) (strip s) = filter (\<lambda>c. \<not> isspace c) s"
proof -
  have d: "filter (\<lambda>c. \<not> isspace c) (dropWhile isspace xs) = filter (\<lambda>c. \<not> isspace c) xs" for xs
    by (induction xs) auto
  show ?thesis unfolding strip_def by (simp add: d rev_filter[symmetric] del: rev_filter)
qed

lemma collapsed_no_pair: "collapsed s \<Longrightarrow> isspace a \<Longrightarrow> isspace b \<Longrightarrow> \<not> contains [a, b] s"
proof (induction s)
  case Nil show ?case by simp
next
  case (Cons c cs)
  then show ?case by (cases cs) auto
qed

lemma collapsed_no_double: "collapsed s \<Longrightarrow> \<not> contains [32, 32] s"
  using collapsed_no_pair[of s 32 32] isspace_32 by blast

section \<open>Strings: prefixes, occurrences, replacement\<close>

lemma startswith_iff: "startswith p s \<longleftrightarrow> (\<exists>r. s = p @ r)"
  by (induction p s rule: startswith.induct) auto

lemma startswith_append: "startswith p (p @ r)"
  by (simp add: startswith_iff)

lemma startswith_decomp: "startswith p s \<Longrightarrow> s = p @ drop (length p) s"
  by (auto simp: startswith_iff)

lemma startswith_extend: "startswith p s \<Longrightarrow> startswith p (s @ t)"
  by (auto simp: startswith_iff)

lemma contains_iff: "contains p s \<longleftrightarrow> (\<exists>pre post. s = pre @ p @ post)"
proof (induction s)
  case Nil
  show ?case by auto
next
  case (Cons c cs)
  show ?case
  proof
    assume "contains p (c # cs)"
    then consider "startswith p (c # cs)" | "contains p cs" by auto
    then show "\<exists>pre post. c # cs = pre @ p @ post"
    proof cases
      case 1
      then obtain r where "c # cs = [] @ p @ r" by (auto simp: startswith_iff)
      then show ?thesis by blast
    next
      case 2
      with Cons obtain pre post where "cs = pre @ p @ post" by blast
      then have "c # cs = (c # pre) @ p @ post" by simp
      then show ?thesis by blast
    qed
  next
    assume "\<exists>pre post. c # cs = pre @ p @ post"
    then obtain pre post where e: "c # cs = pre @ p @ post" by blast
    show "contains p (c # cs)"
    proof (cases pre)
      case Nil
      with e have "startswith p (c # cs)" by (simp add: startswith_iff)
      then show ?thesis by simp
    next
      case (Cons d pre')
      with e have "cs = pre' @ p @ post" by simp
      with Cons.IH have "contains p cs" by blast
      then show ?thesis by simp
    qed
  qed
qed

lemma contains_length: "contains p s \<Longrightarrow> length p \<le> length s"
  by (auto simp: contains_iff)

lemma contains_extend: "contains p s \<Longrightarrow> contains p (x @ s @ y)"
proof -
  assume "contains p s"
  then obtain pre post where "s = pre @ p @ post" by (auto simp: contains_iff)
  then have "x @ s @ y = (x @ pre) @ p @ (post @ y)" by simp
  then show ?thesis unfolding contains_iff by blast
qed

lemma contains_appendL: "contains p s \<Longrightarrow> contains p (s @ y)"
  using contains_extend[of p s "[]" y] by simp

lemma contains_appendR: "contains p s \<Longrightarrow> contains p (x @ s)"
  using contains_extend[of p s x "[]"] by simp

lemma replace1_decomp:
  "contains p s \<Longrightarrow> p \<noteq> [] \<Longrightarrow>
   \<exists>pre post. s = pre @ p @ post \<and> replace1 p b s = pre @ b @ post \<and> \<not> contains p (pre @ butlast p)"
proof (induction s)
  case Nil
  then show ?case by simp
next
  case (Cons c cs)
  show ?case
  proof (cases "startswith p (c # cs)")
    case True
    then have 1: "c # cs = [] @ p @ drop (length p) (c # cs)" using startswith_decomp by fastforce
    have 2: "replace1 p b (c # cs) = [] @ b @ drop (length p) (c # cs)" using True by simp
    have "\<not> contains p ([] @ butlast p)"
    proof
      assume "contains p ([] @ butlast p)"
      then have "length p \<le> length (butlast p)" using contains_length by fastforce
      moreover have "length (butlast p) < length p"
        using Cons.prems(2) by (cases p rule: rev_cases) auto
      ultimately show False by linarith
    qed
    with 1 2 show ?thesis by blast
  next
    case False
    with Cons.prems have "contains p cs" by simp
    with Cons.IH Cons.prems obtain pre post where
      e: "cs = pre @ p @ post" and r: "replace1 p b cs = pre @ b @ post"
      and n: "\<not> contains p (pre @ butlast p)" by blast
    have 1: "c # cs = (c # pre) @ p @ post" using e by simp
    have 2: "replace1 p b (c # cs) = (c # pre) @ b @ post" using False r by simp
    have "\<not> startswith p (c # pre @ butlast p)"
    proof
      assume "startswith p (c # pre @ butlast p)"
      then have "startswith p ((c # pre @ butlast p) @ [last p] @ post)" by (rule startswith_extend)
      moreover have "butlast p @ [last p] = p" using Cons.prems(2) by simp
      ultimately have "startswith p (c # cs)" using e
        by (metis append_Cons append_assoc)
      with False show False by simp
    qed
    with n have "\<not> contains p ((c # pre) @ butlast p)" by simp
    with 1 2 show ?thesis by blast
  qed
qed

lemma try_swaps_None: "try_swaps sw s = None \<longleftrightarrow> (\<forall>i < length sw. \<not> contains (fst (sw ! i)) s)"
proof (induction sw)
  case Nil show ?case by simp
next
  case (Cons ab sw)
  obtain a b where ab: "ab = (a, b)" by (cases ab)
  show ?case using Cons ab by (auto simp: nth_Cons split: nat.splits) 
qed

lemma try_swaps_first:
  "i < length sw \<Longrightarrow> contains (fst (sw ! i)) s \<Longrightarrow> \<forall>j < i. \<not> contains (fst (sw ! j)) s \<Longrightarrow>
   try_swaps sw s = Some (replace1 (fst (sw ! i)) (snd (sw ! i)) s)"
proof (induction sw arbitrary: i)
  case Nil then show ?case by simp
next
  case (Cons ab sw)
  obtain a b where ab: "ab = (a, b)" by (cases ab)
  show ?case
  proof (cases i)
    case 0
    with Cons.prems ab show ?thesis by simp
  next
    case (Suc k)
    with Cons.prems have "\<not> contains a s" using ab by fastforce
    moreover have "try_swaps sw s = Some (replace1 (fst (sw ! k)) (snd (sw ! k)) s)"
    proof (rule Cons.IH)
      show "k < length sw" using Cons.prems(1) Suc by simp
      show "contains (fst (sw ! k)) s" using Cons.prems(2) Suc by simp
      show "\<forall>j<k. \<not> contains (fst (sw ! j)) s"
      proof (intro allI impI)
        fix j assume "j < k"
        then have "Suc j < i" using Suc by simp
        with Cons.prems(3) have "\<not> contains (fst ((ab # sw) ! Suc j)) s" by blast
        then show "\<not> contains (fst (sw ! j)) s" by simp
      qed
    qed
    ultimately show ?thesis using ab Suc by simp
  qed
qed

section \<open>negate_statement: its three branches\<close>

lemma digit_value_ascii: "d < 10 \<Longrightarrow> digit_value (48 + d) = Some d"
  by (simp add: digit_value_def digit_zeros_def)

lemma int_of_digits_snoc:
  "int_of_digits (s @ [c]) = 10 * int_of_digits s + (case digit_value c of None \<Rightarrow> 0 | Some d \<Rightarrow> d)"
  by (simp add: int_of_digits_def)

lemma int_of_digits_str_nat: "int_of_digits (str_nat n) = n"
proof (induction n rule: str_nat.induct)
  case (1 n)
  show ?case
  proof (cases "n < 10")
    case True
    then have "str_nat n = [] @ [48 + n]" by (simp add: str_nat.simps)
    then show ?thesis using True digit_value_ascii[of n]
      by (simp only: int_of_digits_snoc) (simp add: int_of_digits_def)
  next
    case False
    then have s: "str_nat n = str_nat (n div 10) @ [48 + n mod 10]" by (simp add: str_nat.simps)
    have "digit_value (48 + n mod 10) = Some (n mod 10)" by (rule digit_value_ascii) simp
    with 1 False s show ?thesis by (simp add: int_of_digits_snoc)
  qed
qed

lemma str_nat_succ_differs: "str_nat (int_of_digits run + 1) \<noteq> run"
proof
  assume "str_nat (int_of_digits run + 1) = run"
  then have "int_of_digits (str_nat (int_of_digits run + 1)) = int_of_digits run" by simp
  then show False by (simp add: int_of_digits_str_nat)
qed

lemma takeWhile_whole: "length (takeWhile P s) = length s \<longleftrightarrow> (\<forall>c \<in> set s. P c)"
  by (induction s) auto

lemma search_number_None: "search_number s = None \<longleftrightarrow> (\<forall>c \<in> set s. \<not> isdecimal c)"
  using takeWhile_whole[of "\<lambda>c. \<not> isdecimal c" s] by (simp add: search_number_def Let_def)

lemma negate_statement_numeric:
  assumes "try_swaps swaps s = None" and "\<exists>c \<in> set s. isdecimal c"
  shows "negate_statement s =
           takeWhile (\<lambda>c. \<not> isdecimal c) s
           @ str_nat (int_of_digits (takeWhile isdecimal (dropWhile (\<lambda>c. \<not> isdecimal c) s)) + 1)
           @ dropWhile isdecimal (dropWhile (\<lambda>c. \<not> isdecimal c) s)"
proof -
  let ?st = "length (takeWhile (\<lambda>c. \<not> isdecimal c) s)"
  let ?r = "dropWhile (\<lambda>c. \<not> isdecimal c) s"
  let ?en = "?st + length (takeWhile isdecimal ?r)"
  have ne: "?st \<noteq> length s" using assms(2) search_number_None[of s]
    by (auto simp: search_number_def Let_def split: if_splits)
  have d: "drop ?st s = ?r" by (simp add: dropWhile_eq_drop[symmetric])
  have t: "take ?st s = takeWhile (\<lambda>c. \<not> isdecimal c) s" by (simp add: takeWhile_eq_take[symmetric])
  have sn: "search_number s = Some (?st, ?en)" using ne d by (simp add: search_number_def Let_def)
  have run: "take (?en - ?st) (drop ?st s) = takeWhile isdecimal ?r"
    using d by (simp add: takeWhile_eq_take[symmetric])
  have post: "drop ?en s = dropWhile isdecimal ?r"
  proof -
    have "drop ?en s = drop (length (takeWhile isdecimal ?r)) (drop ?st s)" by (simp add: add.commute)
    also have "\<dots> = dropWhile isdecimal ?r" using d by (simp add: dropWhile_eq_drop[symmetric])
    finally show ?thesis .
  qed
  show ?thesis
    unfolding negate_statement_def using assms(1) sn run post t
    by (simp add: Let_def)
qed

lemma negate_statement_suffix:
  "try_swaps swaps s = None \<Longrightarrow> \<forall>c \<in> set s. \<not> isdecimal c \<Longrightarrow> negate_statement s = s @ disclaimer"
  using search_number_None[of s] by (simp add: negate_statement_def)

lemma negate_statement_swap:
  "try_swaps swaps s = Some t \<Longrightarrow> negate_statement s = t"
  by (simp add: negate_statement_def)

section \<open>negate_statement: the table of swaps\<close>

lemma try_swaps_Some:
  "try_swaps sw s = Some t \<Longrightarrow> \<exists>(a, b) \<in> set sw. contains a s \<and> t = replace1 a b s"
proof (induction sw)
  case Nil then show ?case by simp
next
  case (Cons ab sw)
  obtain a b where ab: "ab = (a, b)" by (cases ab)
  show ?case
  proof (cases "contains a s")
    case True
    with Cons.prems ab show ?thesis by auto
  next
    case False
    with Cons.prems ab have "try_swaps sw s = Some t" by simp
    with Cons.IH show ?thesis by auto
  qed
qed

lemma swaps_change: "(a, b) \<in> set swaps \<Longrightarrow> a \<noteq> b \<and> a \<noteq> []"
  by (auto simp: swaps_def)

lemma cjk_not_decimal: "19968 \<le> c \<Longrightarrow> c \<le> 40959 \<Longrightarrow> \<not> isdecimal c"
  by (simp add: isdecimal_def digit_value_def digit_zeros_def)

lemma swaps_not_decimal: "(a, b) \<in> set swaps \<Longrightarrow> filter isdecimal a = [] \<and> filter isdecimal b = []"
  unfolding swaps_def by (auto simp: cjk_not_decimal)

lemma disclaimer_nonempty: "disclaimer \<noteq> []"
  by (simp add: disclaimer_def)

section \<open>make_true_false: the invariant of its loops\<close>

lemma true_false_sentences_inv:
  assumes "list_all2 tf_derived bs results" and "distinct bs" and "set bs = seen"
    and "\<forall>b \<in> set bs. 6 \<le> length b"
    and "int (length results) \<le> max cnt 0"
    and "true_false_sentences art cnt sents (results, seen, rng) = (results', seen', rng')"
  shows "\<exists>bs'. list_all2 tf_derived bs' results' \<and> distinct bs' \<and> set bs' = seen'
           \<and> (\<forall>b \<in> set bs'. 6 \<le> length b)
           \<and> int (length results') \<le> max cnt 0
           \<and> seen \<subseteq> seen' \<and> seen' \<subseteq> seen \<union> set sents
           \<and> length results \<le> length results'
           \<and> (int (length results') < cnt \<longrightarrow> (\<forall>s \<in> set sents. 6 \<le> length s \<longrightarrow> s \<in> seen'))"
  using assms
proof (induction sents arbitrary: bs results seen rng)
  case Nil
  then show ?case by auto
next
  case (Cons sent rest)
  show ?case
  proof (cases "int (length results) \<ge> cnt")
    case True
    with Cons.prems show ?thesis by auto
  next
    case False
    note notfull = this
    show ?thesis
    proof (cases "sent \<in> seen \<or> length sent < 6")
      case True
      with notfull Cons.prems(6)
      have "true_false_sentences art cnt rest (results, seen, rng) = (results', seen', rng')"
        by simp
      from Cons.IH[OF Cons.prems(1-5) this] obtain bs' where
        "list_all2 tf_derived bs' results'" "distinct bs'" "set bs' = seen'"
        "\<forall>b \<in> set bs'. 6 \<le> length b" "int (length results') \<le> max cnt 0"
        "seen \<subseteq> seen'" "seen' \<subseteq> seen \<union> set rest" "length results \<le> length results'"
        "int (length results') < cnt \<longrightarrow> (\<forall>s \<in> set rest. 6 \<le> length s \<longrightarrow> s \<in> seen')"
        by blast
      with True show ?thesis by (intro exI[of _ bs']) auto
    next
      case False
      obtain u r1 where u: "rng_random rng = (u, r1)" by (cases "rng_random rng")
      let ?q = "\<lparr> qtype = TrueFalse,
                  question = (if u < 1 / 2 then negate_statement sent else sent),
                  options = Some [dui, cuo],
                  answer = Str (if \<not> u < 1 / 2 then dui else cuo),
                  source = (source_file art, article_no art) \<rparr>"
      have step: "true_false_sentences art cnt rest (results @ [?q], insert sent seen, r1)
                  = (results', seen', rng')"
        using Cons.prems(6) notfull False u by (simp add: Let_def)
      have d: "tf_derived sent ?q" by (simp add: tf_derived_def)
      have 1: "list_all2 tf_derived (bs @ [sent]) (results @ [?q])"
        using Cons.prems(1) d by (simp add: list_all2_appendI)
      have 2: "distinct (bs @ [sent])" using Cons.prems(2,3) False by auto
      have 3: "set (bs @ [sent]) = insert sent seen" using Cons.prems(3) by auto
      have 4: "\<forall>b \<in> set (bs @ [sent]). 6 \<le> length b" using Cons.prems(4) False by auto
      have 5: "int (length (results @ [?q])) \<le> max cnt 0" using notfull by simp
      from Cons.IH[OF 1 2 3 4 5 step] obtain bs' where
        "list_all2 tf_derived bs' results'" "distinct bs'" "set bs' = seen'"
        "\<forall>b \<in> set bs'. 6 \<le> length b" "int (length results') \<le> max cnt 0"
        "insert sent seen \<subseteq> seen'" "seen' \<subseteq> insert sent seen \<union> set rest"
        "length (results @ [?q]) \<le> length results'"
        "int (length results') < cnt \<longrightarrow> (\<forall>s \<in> set rest. 6 \<le> length s \<longrightarrow> s \<in> seen')"
        by blast
      then show ?thesis by (intro exI[of _ bs']) auto
    qed
  qed
qed

lemma true_false_articles_inv:
  assumes "list_all2 tf_derived bs results" and "distinct bs" and "set bs = seen"
    and "\<forall>b \<in> set bs. 6 \<le> length b"
    and "int (length results) \<le> max cnt 0"
    and "true_false_articles nouns_of cnt arts (results, seen, rng) = (results', seen', rng')"
  shows "\<exists>bs'. list_all2 tf_derived bs' results' \<and> distinct bs' \<and> set bs' = seen'
           \<and> (\<forall>b \<in> set bs'. 6 \<le> length b)
           \<and> int (length results') \<le> max cnt 0
           \<and> seen \<subseteq> seen'
           \<and> seen' \<subseteq> seen \<union> (\<Union>art \<in> set arts. set (sentences (extract_entities nouns_of (body art))))
           \<and> (int (length results') < cnt \<longrightarrow>
                (\<forall>art \<in> set arts. \<forall>s \<in> set (sentences (extract_entities nouns_of (body art))).
                   6 \<le> length s \<longrightarrow> s \<in> seen'))"
  using assms
proof (induction arts arbitrary: bs results seen rng)
  case Nil
  then show ?case by auto
next
  case (Cons art arts)
  let ?sents = "sentences (extract_entities nouns_of (body art))"
  obtain res1 seen1 rng1 where
    inner: "true_false_sentences art cnt ?sents (results, seen, rng) = (res1, seen1, rng1)"
    by (cases "true_false_sentences art cnt ?sents (results, seen, rng)") auto
  from true_false_sentences_inv[OF Cons.prems(1-5) inner] obtain bs1 where
    i1: "list_all2 tf_derived bs1 res1" and i2: "distinct bs1" and i3: "set bs1 = seen1"
    and i4: "\<forall>b \<in> set bs1. 6 \<le> length b" and i5: "int (length res1) \<le> max cnt 0"
    and i6: "seen \<subseteq> seen1" and i7: "seen1 \<subseteq> seen \<union> set ?sents"
    and i8: "int (length res1) < cnt \<longrightarrow> (\<forall>s \<in> set ?sents. 6 \<le> length s \<longrightarrow> s \<in> seen1)"
    by blast
  show ?case
  proof (cases "int (length res1) \<ge> cnt")
    case True
    with Cons.prems(6) inner have e: "results' = res1" "seen' = seen1" by simp_all
    with i1 i2 i3 i4 i5 i6 i7 True show ?thesis by (intro exI[of _ bs1]) auto
  next
    case False
    with Cons.prems(6) inner
    have "true_false_articles nouns_of cnt arts (res1, seen1, rng1) = (results', seen', rng')"
      by simp
    from Cons.IH[OF i1 i2 i3 i4 i5 this] obtain bs' where
      j: "list_all2 tf_derived bs' results'" "distinct bs'" "set bs' = seen'"
      "\<forall>b \<in> set bs'. 6 \<le> length b" "int (length results') \<le> max cnt 0"
      and j6: "seen1 \<subseteq> seen'"
      and j7: "seen' \<subseteq> seen1 \<union> (\<Union>art \<in> set arts. set (sentences (extract_entities nouns_of (body art))))"
      and j8: "int (length results') < cnt \<longrightarrow>
                (\<forall>art \<in> set arts. \<forall>s \<in> set (sentences (extract_entities nouns_of (body art))).
                   6 \<le> length s \<longrightarrow> s \<in> seen')"
      by blast
    have k6: "seen \<subseteq> seen'" using i6 j6 by blast
    have k7: "seen' \<subseteq> seen \<union> (\<Union>art \<in> set (art # arts). set (sentences (extract_entities nouns_of (body art))))"
      using i7 j7 by auto
    have k8: "int (length results') < cnt \<longrightarrow>
                (\<forall>a \<in> set (art # arts). \<forall>s \<in> set (sentences (extract_entities nouns_of (body a))).
                   6 \<le> length s \<longrightarrow> s \<in> seen')"
      using i8 j8 j6 False by auto
    from j k6 k7 k8 show ?thesis by (intro exI[of _ bs']) blast
  qed
qed

section \<open>Evaluation of the example article\<close>

lemma example_article_normalized:
  "normalize_text (body example_article) = body example_article"
  by (simp add: example_article_def normalize_text_def strip_def replace_nbsp_def isspace_def)

lemma example_article_sentences:
  "sentences (extract_entities nouns_of (body example_article)) =
     [[20844, 27665, 24212, 24403, 36981, 23432, 27861, 24459, 12290],
      [31105, 27490, 28389, 29992, 26435, 21033, 12290], [22909, 12290]]"
  unfolding extract_entities_def Let_def example_article_normalized
  by (simp add: example_article_def split_sentences_def is_terminal_def strip_def isspace_def)

lemma example_negated:
  "negate_statement [20844, 27665, 24212, 24403, 36981, 23432, 27861, 24459, 12290]
     = [20844, 27665, 19981, 24471, 36981, 23432, 27861, 24459, 12290]"
  by (simp add: negate_statement_def swaps_def)

section \<open>weighted_sample and random.choices\<close>



lemma length_accumulate_from: "length (accumulate_from acc ws) = length ws"
  by (induction ws arbitrary: acc) auto

lemma last_accumulate_from: "ws \<noteq> [] \<Longrightarrow> last (accumulate_from acc ws) = acc + sum_list ws"
proof (induction ws arbitrary: acc)
  case Nil then show ?case by simp
next
  case (Cons w ws)
  show ?case
  proof (cases ws)
    case Nil then show ?thesis by simp
  next
    case (Cons v vs)
    then have "accumulate_from (acc + w) ws \<noteq> []" by simp
    with Cons.IH[of "acc + w"] Cons show ?thesis by (simp add: add.assoc)
  qed
qed

lemma length_article_weights: "length (article_weights articles w) = length articles"
  by (simp add: article_weights_def Let_def)

lemma float_max_large: "1000 \<le> float_max"
  by (simp add: float_max_def)

lemma isfinite_total_small: "list_all (\<lambda>c. \<bar>c\<bar> \<le> 1000) cum \<Longrightarrow> isfinite_total cum"
  unfolding isfinite_total_def list_all_iff using float_max_large by force

lemma choices_empty: "choices [] [] k g = Inl IndexError"
  by (simp add: choices_def)

lemma weighted_sample_empty: "weighted_sample [] w k g = Inl IndexError"
  by (simp add: weighted_sample_def article_weights_def choices_empty)


lemma weighted_sample_succeeds:
  assumes "articles \<noteq> []" and "0 < sum_list (article_weights articles w)"
    and "isfinite_total (accumulate_from 0 (article_weights articles w))"
  shows "\<exists>xs g'. weighted_sample articles w k g = Inr (xs, g')"
proof -
  let ?ws = "article_weights articles w"
  have wne: "?ws \<noteq> []" using assms(1) length_article_weights[of articles w] by auto
  then have "accumulate_from 0 ?ws \<noteq> []" by (cases ?ws) auto
  moreover have "\<not> last (accumulate_from 0 ?ws) \<le> 0"
    using assms(2) last_accumulate_from[OF wne, of 0] by simp
  ultimately show ?thesis using assms(3)
    by (auto simp: weighted_sample_def choices_def Let_def length_accumulate_from
          length_article_weights split: prod.splits)
qed


lemma sample_articles_empty: "sample_articles [] cfg g = Inl IndexError"
  by (simp add: sample_articles_def weighted_sample_empty)



section \<open>The random sources: choice, randint, shuffle, sample\<close>

lemma randbelow_less: "0 < n \<Longrightarrow> randbelow n r = (j, r') \<Longrightarrow> j < n"
  by (auto simp: randbelow_def split: prod.splits)

lemma rng_choice_Inr: "seq \<noteq> [] \<Longrightarrow> \<exists>x r'. rng_choice seq r = Inr (x, r') \<and> x \<in> set seq"
proof -
  assume ne: "seq \<noteq> []"
  obtain j r' where j: "randbelow (length seq) r = (j, r')" by (cases "randbelow (length seq) r")
  with ne have "j < length seq" using randbelow_less[of "length seq" r j r'] by simp
  with j ne show ?thesis by (simp add: rng_choice_def)
qed

lemma rng_choice_member: "rng_choice seq r = Inr (x, r') \<Longrightarrow> x \<in> set seq"
proof -
  assume a: "rng_choice seq r = Inr (x, r')"
  then have ne: "seq \<noteq> []" by (auto simp: rng_choice_def split: if_splits)
  from rng_choice_Inr[OF ne, of r] a show ?thesis by auto
qed

lemma rng_randint_range:
  "a \<le> b \<Longrightarrow> \<exists>n r'. rng_randint a b r = Inr (n, r') \<and> a \<le> n \<and> n \<le> b"
proof -
  assume ab: "a \<le> b"
  obtain j r' where j: "randbelow (nat (b + 1 - a)) r = (j, r')"
    by (cases "randbelow (nat (b + 1 - a)) r")
  with ab have "j < nat (b + 1 - a)" using randbelow_less[of "nat (b + 1 - a)" r j r'] by simp
  with j ab show ?thesis by (auto simp: rng_randint_def)
qed

lemma shuffle_from_mset: "i < length x \<Longrightarrow> mset (fst (shuffle_from i x r)) = mset x"
proof (induction i arbitrary: x r)
  case 0
  show ?case by simp
next
  case (Suc i)
  obtain j r' where j: "randbelow (Suc i + 1) r = (j, r')" by (cases "randbelow (Suc i + 1) r")
  then have "j < Suc i + 1" using randbelow_less[of "Suc i + 1" r j r'] by simp
  then have jl: "j < length x" using Suc.prems by simp
  let ?x = "(x[Suc i := x ! j])[j := x ! Suc i]"
  have m: "mset ?x = mset x" using mset_swap[OF jl Suc.prems] by simp
  have "i < length ?x" using Suc.prems by simp
  from Suc.IH[OF this, of r'] m j show ?case by simp
qed

lemma rng_shuffle_mset: "mset (fst (rng_shuffle x r)) = mset x"
proof (cases x)
  case Nil
  then show ?thesis by (simp add: rng_shuffle_def)
next
  case (Cons a as)
  then have "length x - 1 < length x" by simp
  then show ?thesis unfolding rng_shuffle_def by (rule shuffle_from_mset)
qed

lemma sample_pool_step:
  assumes "j < m" and "m \<le> length pool"
  shows "add_mset (pool ! j) (mset (take (m - 1) (pool[j := pool ! (m - 1)]))) = mset (take m pool)"
proof -
  have m: "m - 1 < length pool" "Suc (m - 1) = m" using assms by auto
  have t: "take m pool = take (m - 1) pool @ [pool ! (m - 1)]"
    using take_Suc_conv_app_nth[OF m(1)] m(2) by simp
  show ?thesis
  proof (cases "j = m - 1")
    case True
    then show ?thesis using t by simp
  next
    case False
    with assms have jl: "j < m - 1" by simp
    then have jt: "j < length (take (m - 1) pool)" using m by simp
    have "take (m - 1) (pool[j := pool ! (m - 1)]) = (take (m - 1) pool)[j := pool ! (m - 1)]"
      using jl by (simp add: take_update_swap)
    then have "mset (take (m - 1) (pool[j := pool ! (m - 1)]))
        = add_mset (pool ! (m - 1)) (mset (take (m - 1) pool) - {#take (m - 1) pool ! j#})"
      using jt by (simp add: mset_update)
    moreover have "take (m - 1) pool ! j = pool ! j" using jl by simp
    moreover have "pool ! j \<in># mset (take (m - 1) pool)"
      using jt \<open>take (m - 1) pool ! j = pool ! j\<close> by (metis nth_mem set_mset_mset)
    ultimately show ?thesis using t by simp
  qed
qed

lemma sample_pool_result:
  "k \<le> m \<Longrightarrow> m \<le> length pool \<Longrightarrow> sample_pool k pool m r = (xs, r') \<Longrightarrow>
   length xs = k \<and> mset xs \<subseteq># mset (take m pool)"
proof (induction k arbitrary: pool m r xs r')
  case 0
  then show ?case by simp
next
  case (Suc k)
  obtain j r1 where j: "randbelow m r = (j, r1)" by (cases "randbelow m r")
  have mpos: "0 < m" using Suc.prems(1) by simp
  then have jm: "j < m" using randbelow_less[OF _ j] by simp
  let ?pool = "pool[j := pool ! (m - 1)]"
  obtain rest r2 where rest: "sample_pool k ?pool (m - 1) r1 = (rest, r2)"
    by (cases "sample_pool k ?pool (m - 1) r1")
  have xs: "xs = pool ! j # rest" using Suc.prems(3) j rest by simp
  have "k \<le> m - 1" "m - 1 \<le> length ?pool" using Suc.prems(1,2) by simp_all
  from Suc.IH[OF this rest] have l: "length rest = k" and s: "mset rest \<subseteq># mset (take (m - 1) ?pool)"
    by simp_all
  from s have "add_mset (pool ! j) (mset rest) \<subseteq># add_mset (pool ! j) (mset (take (m - 1) ?pool))"
    by simp
  then have "add_mset (pool ! j) (mset rest) \<subseteq># mset (take m pool)"
    by (simp only: sample_pool_step[OF jm Suc.prems(2)])
  then have "mset xs \<subseteq># mset (take m pool)" using xs by simp
  with l xs show ?case by simp
qed

lemma rng_sample_result:
  assumes "0 \<le> k" and "k \<le> int (length population)"
  shows "\<exists>xs r'. rng_sample population k r = Inr (xs, r') \<and> length xs = nat k
           \<and> mset xs \<subseteq># mset population"
proof -
  obtain xs r' where s: "sample_pool (nat k) population (length population) r = (xs, r')"
    by (cases "sample_pool (nat k) population (length population) r")
  have "nat k \<le> length population" using assms by simp
  from sample_pool_result[OF this _ s] have "length xs = nat k \<and> mset xs \<subseteq># mset population" by simp
  with s assms show ?thesis by (simp add: rng_sample_def)
qed

lemma index_of_Some:
  "x \<in> set xs \<Longrightarrow> \<exists>i. index_of xs x = Some i \<and> i < length xs \<and> xs ! i = x"
proof (induction xs)
  case Nil then show ?case by simp
next
  case (Cons y ys)
  then show ?case by (cases "y = x") auto
qed

lemma filter_nth_length:
  "length (filter (\<lambda>i. P (xs ! i)) [0..<length xs]) = length (filter P xs)"
proof -
  have "filter P (map (\<lambda>i. xs ! i) [0..<length xs]) = map (\<lambda>i. xs ! i) (filter (P \<circ> (\<lambda>i. xs ! i)) [0..<length xs])"
    by (rule filter_map)
  then have "length (filter P xs) = length (filter (P \<circ> (\<lambda>i. xs ! i)) [0..<length xs])"
    by (simp add: map_nth)
  then show ?thesis by (simp add: comp_def)
qed

section \<open>make_single_choice: every question is well formed\<close>

lemma single_correct_not_distractor: "single_correct k \<noteq> distractor_of k'"
proof
  assume "single_correct k = distractor_of k'"
  then have "rev (single_correct k) = rev (distractor_of k')" by simp
  then show False by (simp add: single_correct_def distractor_of_def)
qed

lemma multiple_correct_not_distractor: "multiple_correct k \<noteq> distractor_of k'"
  by (simp add: multiple_correct_def distractor_of_def)

lemma set_fromkeys: "set (fromkeys xs) = set xs"
  by (simp add: fromkeys_def)

lemma distinct_fromkeys: "distinct (fromkeys xs)"
  by (simp add: fromkeys_def)

lemma distinct_pick_keywords: "distinct (pick_keywords ents n)"
  by (simp add: pick_keywords_def distinct_fromkeys)

lemma distinct_submultiset:
  assumes "mset xs \<subseteq># mset ys" and "distinct ys"
  shows "distinct xs"
proof -
  have "count (mset xs) a = (if a \<in> set xs then 1 else 0)" for a
  proof (cases "a \<in> set xs")
    case True
    then have "0 < count (mset xs) a" by (simp add: count_mset_gt_0)
    moreover have "count (mset xs) a \<le> count (mset ys) a"
      using assms(1) by (rule mset_subset_eq_count)
    moreover have "count (mset ys) a \<le> 1"
      using assms(2) by (simp add: distinct_count_atmost_1)
    ultimately have "count (mset xs) a = 1" by linarith
    then show ?thesis using True by simp
  next
    case False
    then show ?thesis by simp
  qed
  then show ?thesis by (simp only: distinct_count_atmost_1) simp
qed

lemma distinct_pool: "distinct (build_distractor_pool nouns_of arts)"
  by (simp add: build_distractor_pool_def distinct_fromkeys)

lemma pool_entries:
  "p \<in> set (build_distractor_pool nouns_of arts) \<Longrightarrow> \<exists>kw. p = distractor_of kw"
  by (auto simp: build_distractor_pool_def set_fromkeys)

lemma pool_nonempty:
  assumes "art \<in> set arts" and "pick_keywords (extract_entities nouns_of (body art)) n \<noteq> []"
  shows "build_distractor_pool nouns_of arts \<noteq> []"
proof -
  let ?e = "extract_entities nouns_of (body art)"
  from assms(2) have "fromkeys (terms ?e @ nouns ?e) \<noteq> []" by (auto simp: pick_keywords_def)
  then have "pick_keywords ?e 4 \<noteq> []" by (simp add: pick_keywords_def)
  then obtain kw where "kw \<in> set (pick_keywords ?e 4)" by (cases "pick_keywords ?e 4") auto
  with assms(1) have "distractor_of kw \<in> set (build_distractor_pool nouns_of arts)"
    by (auto simp: build_distractor_pool_def set_fromkeys)
  then show ?thesis by auto
qed

lemma sample_distractors_result:
  assumes "0 \<le> n"
  shows "\<exists>ds r'. sample_distractors pool key n r = Inr (ds, r') \<and> set ds \<subseteq> set pool
           \<and> int (length ds) \<le> n \<and> (pool \<noteq> [] \<and> 0 < n \<longrightarrow> ds \<noteq> [])
           \<and> length ds = nat (min n (int (length pool)))
           \<and> mset ds \<subseteq># mset pool
           \<and> (n \<le> int (length (filter (\<lambda>p. \<not> contains key p) pool))
                \<longrightarrow> (\<forall>d \<in> set ds. \<not> contains key d))"
proof -
  let ?f = "filter (\<lambda>p. \<not> contains key p) pool"
  let ?c = "if int (length ?f) < n then pool else ?f"
  let ?k = "min n (int (length ?c))"
  have k: "0 \<le> ?k" "?k \<le> int (length ?c)" using assms by simp_all
  from rng_sample_result[OF k, of r] obtain ds r' where
    s: "rng_sample ?c ?k r = Inr (ds, r')" and l: "length ds = nat ?k" and m: "mset ds \<subseteq># mset ?c"
    by blast
  have sd: "sample_distractors pool key n r = Inr (ds, r')"
    using s by (simp add: sample_distractors_def Let_def)
  have "set ds \<subseteq> set ?c" using m by (metis set_mset_mono set_mset_mset)
  then have sub: "set ds \<subseteq> set pool" by (auto split: if_splits)
  have len: "int (length ds) \<le> n" using l assms by simp
  have ne: "ds \<noteq> []" if "pool \<noteq> []" "0 < n"
  proof -
    have "?c \<noteq> []"
    proof (cases "int (length ?f) < n")
      case True
      with that(1) show ?thesis by simp
    next
      case False
      have "?f \<noteq> []"
      proof
        assume "?f = []"
        then have "int (length ?f) = 0" by simp
        with False that(2) show False by linarith
      qed
      with False show ?thesis by simp
    qed
    then have "0 < int (length ?c)" by simp
    then have "0 < ?k" using that(2) by simp
    then have "0 < length ds" using l by simp
    then show ?thesis by auto
  qed
  have fl: "int (length ?f) \<le> int (length pool)" by simp
  have ex: "length ds = nat (min n (int (length pool)))"
  proof (cases "int (length ?f) < n")
    case True
    then show ?thesis using l by simp
  next
    case False
    with fl have "n \<le> int (length ?f)" "n \<le> int (length pool)" by linarith+
    then have "?k = n" "min n (int (length pool)) = n" using False by simp_all
    then show ?thesis using l by simp
  qed
  have "mset ?c \<subseteq># mset pool" by (simp add: multiset_filter_subset)
  with m have ms: "mset ds \<subseteq># mset pool" by (rule subset_mset.order_trans)
  have av: "\<forall>d \<in> set ds. \<not> contains key d" if "n \<le> int (length ?f)"
  proof -
    from that have "?c = ?f" by simp
    with \<open>set ds \<subseteq> set ?c\<close> have "set ds \<subseteq> set ?f" by simp
    then show ?thesis by auto
  qed
  from sd sub len ne ex ms av show ?thesis by blast
qed

lemma choose_stem_Inr: "\<exists>stem r'. choose_stem ents art r = Inr (stem, r')"
proof (cases "sentences ents = []")
  case True
  then show ?thesis by (simp add: choose_stem_def)
next
  case False
  from rng_choice_Inr[OF this, of r] show ?thesis using False by (auto simp: choose_stem_def)
qed

lemma single_choice_article_result:
  assumes pool: "\<forall>p \<in> set pool. \<exists>kw. p = distractor_of kw"
    and dp: "distinct pool"
    and ne: "pick_keywords (extract_entities nouns_of (body art)) 5 \<noteq> [] \<longrightarrow> pool \<noteq> []"
    and keys: "set (pick_keywords (extract_entities nouns_of (body art)) 5) \<subseteq> keys"
  shows "\<exists>res r'. single_choice_article nouns_of pool art r = Inr (res, r')
           \<and> (\<forall>q. res = Some q \<longrightarrow> single_valid pool keys q)"
proof -
  let ?ents = "extract_entities nouns_of (body art)"
  let ?kws = "pick_keywords ?ents 5"
  show ?thesis
  proof (cases "?kws = []")
    case True
    then show ?thesis by (simp add: single_choice_article_def Let_def)
  next
    case False
    obtain stem r1 where st: "choose_stem ?ents art r = Inr (stem, r1)"
      using choose_stem_Inr by blast
    obtain key r2 where ch: "rng_choice ?kws r1 = Inr (key, r2)" and key: "key \<in> set ?kws"
      using rng_choice_Inr[OF False, of r1] by blast
    let ?correct = "single_correct key"
    have "(0::int) \<le> 3" by simp
    from sample_distractors_result[OF this, of pool key r2]
    obtain ds r3 where sd: "sample_distractors pool key 3 r2 = Inr (ds, r3)"
      and sub: "set ds \<subseteq> set pool" and len: "int (length ds) \<le> 3"
      and dne: "pool \<noteq> [] \<and> (0::int) < 3 \<longrightarrow> ds \<noteq> []"
      and lex: "length ds = nat (min 3 (int (length pool)))"
      and msd: "mset ds \<subseteq># mset pool"
      and avd: "3 \<le> int (length (filter (\<lambda>p. \<not> contains key p) pool))
                  \<longrightarrow> (\<forall>d \<in> set ds. \<not> contains key d)"
      by blast
    obtain opts r4 where sh: "rng_shuffle (?correct # ds) r3 = (opts, r4)"
      by (cases "rng_shuffle (?correct # ds) r3")
    have ms: "mset opts = mset (?correct # ds)" using rng_shuffle_mset[of "?correct # ds" r3] sh by simp
    from ms have "set opts = set (?correct # ds)" by (rule mset_eq_setD)
    then have so: "set opts = insert ?correct (set ds)" by simp
    then have "?correct \<in> set opts" by simp
    from index_of_Some[OF this] obtain i where ix: "index_of opts ?correct = Some i"
      and il: "i < length opts" and io: "opts ! i = ?correct" by auto
    let ?q = "\<lparr> qtype = Single, question = single_qtext (article_no art) stem,
                options = Some opts, answer = Str [65 + i],
                source = (source_file art, article_no art) \<rparr>"
    have res: "single_choice_article nouns_of pool art r = Inr (Some ?q, r4)"
      using False st ch sd sh ix by (simp add: single_choice_article_def Let_def letter_def)
    have nd: "?correct \<notin> set ds"
    proof
      assume "?correct \<in> set ds"
      with sub pool obtain kw where "?correct = distractor_of kw" by blast
      then show False using single_correct_not_distractor by blast
    qed
    have "length (filter (\<lambda>opt. ?correct = opt) opts) = count (mset opts) ?correct"
      by (simp add: count_mset count_list_eq_length_filter)
    also have "\<dots> = 1" using nd by (simp add: ms count_mset count_list_0_iff)
    finally have one: "length (filter (\<lambda>opt. opt = ?correct) opts) = 1"
      by (simp add: eq_commute)
    from ms have "length opts = length (?correct # ds)" by (rule mset_eq_length)
    then have lo: "length opts = Suc (length ds)" by simp
    have "ds \<noteq> []" using dne ne False by simp
    then have l2: "2 \<le> length opts" using lo by (cases ds) auto
    have l4: "length opts \<le> 4" using lo len by simp
    have ss: "set opts \<subseteq> insert ?correct (set pool)" using so sub by auto
    have kk: "key \<in> keys" using key keys by blast
    have "distinct ds" using msd dp by (rule distinct_submultiset)
    then have dc: "distinct (?correct # ds)" using nd by simp
    have dist: "distinct opts" using mset_eq_imp_distinct_iff[OF ms] dc by blast
    have lopts: "length opts = 1 + min 3 (length pool)" using lo lex by simp
    have av: "3 \<le> length (filter (\<lambda>p. \<not> contains key p) pool) \<longrightarrow>
             (\<forall>opt \<in> set opts. opt \<noteq> ?correct \<longrightarrow> \<not> contains key opt)"
    proof (intro impI ballI)
      fix opt
      assume a: "3 \<le> length (filter (\<lambda>p. \<not> contains key p) pool)"
        and b: "opt \<in> set opts" and c: "opt \<noteq> ?correct"
      from a have "3 \<le> int (length (filter (\<lambda>p. \<not> contains key p) pool))" by simp
      with avd have "\<forall>d \<in> set ds. \<not> contains key d" by blast
      moreover from b c so have "opt \<in> set ds" by simp
      ultimately show "\<not> contains key opt" by blast
    qed
    have q1: "qtype ?q = Single" "options ?q = Some opts" "answer ?q = Str [65 + i]" by simp_all
    have "single_valid pool keys ?q"
      unfolding single_valid_def
      apply (rule exI[of _ key], rule exI[of _ opts], rule exI[of _ i])
      apply (intro conjI)
      by (rule kk q1 il io one dist lopts l2 l4 ss av)+
    with res show ?thesis by simp
  qed
qed

lemma single_choice_loop_results:
  assumes "\<And>art r. art \<in> set arts \<Longrightarrow>
             \<exists>res r'. single_choice_article nouns_of pool art r = Inr (res, r')
               \<and> (\<forall>q. res = Some q \<longrightarrow> P q)"
    and "\<forall>q \<in> set results. P q"
  shows "\<exists>results' seen' rng'.
           single_choice_loop nouns_of pool cnt arts (results, seen, rng) = Inr (results', seen', rng')
           \<and> (\<forall>q \<in> set results'. P q)"
  using assms
proof (induction arts arbitrary: results seen rng)
  case Nil
  then show ?case by simp
next
  case (Cons art arts)
  have step: "\<And>a r. a \<in> set arts \<Longrightarrow>
             \<exists>res r'. single_choice_article nouns_of pool a r = Inr (res, r')
               \<and> (\<forall>q. res = Some q \<longrightarrow> P q)"
    using Cons.prems(1) by simp
  show ?case
  proof (cases "int (length results) \<ge> cnt")
    case True
    with Cons.prems(2) show ?thesis by simp
  next
    case False
    obtain res r1 where a: "single_choice_article nouns_of pool art rng = Inr (res, r1)"
      and p: "\<forall>q. res = Some q \<longrightarrow> P q"
      using Cons.prems(1)[of art rng] by auto
    show ?thesis
    proof (cases res)
      case None
      with Cons.IH[OF step Cons.prems(2), of seen r1] False a show ?thesis by simp
    next
      case (Some q)
      show ?thesis
      proof (cases "question q \<in> seen")
        case True
        with Cons.IH[OF step Cons.prems(2), of seen r1] False a Some show ?thesis by simp
      next
        case notseen: False
        have "\<forall>x \<in> set (results @ [q]). P x" using Cons.prems(2) p Some by auto
        from Cons.IH[OF step this, of "insert (question q) seen" r1] False a Some notseen
        show ?thesis by simp
      qed
    qed
  qed
qed

section \<open>Evaluation: entities and a single-choice question of the examples\<close>

lemma not_decimal_12290: "\<not> isdecimal 12290"
  by (simp add: isdecimal_def digit_value_def digit_zeros_def)

lemma example_article_entities:
  "extract_entities (\<lambda>t. []) (body example_article) =
     \<lparr> numbers = [], terms = [[24212, 24403], [31105, 27490]], nouns = [],
       sentences = [[20844, 27665, 24212, 24403, 36981, 23432, 27861, 24459, 12290],
                    [31105, 27490, 28389, 29992, 26435, 21033, 12290], [22909, 12290]] \<rparr>"
proof -
  have s: "split_sentences (body example_article) =
     [[20844, 27665, 24212, 24403, 36981, 23432, 27861, 24459, 12290],
      [31105, 27490, 28389, 29992, 26435, 21033, 12290], [22909, 12290]]"
    using example_article_sentences [of "\<lambda>t. []"]
    by (simp add: extract_entities_def Let_def example_article_normalized)
  have n: "findall_numbers (body example_article) = []"
    by (simp add: example_article_def cjk_not_decimal not_decimal_12290)
  have t: "filter (\<lambda>k. contains k (body example_article)) KEY_TERMS = [[24212, 24403], [31105, 27490]]"
    by (simp add: example_article_def KEY_TERMS_def)
  show ?thesis
    unfolding extract_entities_def Let_def example_article_normalized s n t by simp
qed

lemma example_one_term_entities:
  "extract_entities (\<lambda>t. []) (body example_article_one_term) =
     \<lparr> numbers = [], terms = [[24212, 24403]], nouns = [],
       sentences = [[20844, 27665, 24212, 24403, 36981, 23432, 27861, 24459, 12290]] \<rparr>"
proof -
  have e: "normalize_text (body example_article_one_term) = body example_article_one_term"
    by (simp add: example_article_one_term_def normalize_text_def strip_def replace_nbsp_def
          isspace_def)
  have s: "split_sentences (body example_article_one_term) =
     [[20844, 27665, 24212, 24403, 36981, 23432, 27861, 24459, 12290]]"
    by (simp add: example_article_one_term_def split_sentences_def is_terminal_def strip_def
          isspace_def)
  have n: "findall_numbers (body example_article_one_term) = []"
    by (simp add: example_article_one_term_def cjk_not_decimal not_decimal_12290)
  have t: "filter (\<lambda>k. contains k (body example_article_one_term)) KEY_TERMS = [[24212, 24403]]"
    by (simp add: example_article_one_term_def KEY_TERMS_def)
  show ?thesis
    unfolding extract_entities_def Let_def e s n t by simp
qed

lemma example_single:
  "make_single_choice (\<lambda>t. []) [example_article] 1 [] =
     Inr ([\<lparr> qtype = Single,
              question = single_qtext [31532, 49, 26465]
                           [20844, 27665, 24212, 24403, 36981, 23432, 27861, 24459, 12290],
              options = Some [distractor_of [24212, 24403], distractor_of [31105, 27490],
                              single_correct [24212, 24403]],
              answer = Str (letter 2),
              source = ([115, 46, 100, 111, 99, 120], [31532, 49, 26465]) \<rparr>], [])"
proof -
  have p: "build_distractor_pool (\<lambda>t. []) [example_article]
             = [distractor_of [24212, 24403], distractor_of [31105, 27490]]"
    by (simp add: build_distractor_pool_def example_article_entities pick_keywords_def
          fromkeys_def distractor_of_def)
  have c1: "contains [24212, 24403] (distractor_of [24212, 24403])"
    by (simp add: distractor_of_def)
  have c2: "\<not> contains [24212, 24403] (distractor_of [31105, 27490])"
    by (simp add: distractor_of_def)
  have sd: "sample_distractors [distractor_of [24212, 24403], distractor_of [31105, 27490]]
              [24212, 24403] 3 [] = Inr ([distractor_of [24212, 24403], distractor_of [31105, 27490]], [])"
    by (simp add: sample_distractors_def c1 c2 rng_sample_def randbelow_def next_raw_def
          numeral_2_eq_2)
  have sh: "rng_shuffle [single_correct [24212, 24403], distractor_of [24212, 24403], distractor_of [31105, 27490]] []
              = ([distractor_of [24212, 24403], distractor_of [31105, 27490], single_correct [24212, 24403]], [])"
    by (simp add: rng_shuffle_def randbelow_def next_raw_def numeral_2_eq_2)
  have ne: "distractor_of [24212, 24403] \<noteq> single_correct [24212, 24403]"
      "distractor_of [31105, 27490] \<noteq> single_correct [24212, 24403]"
    using single_correct_not_distractor by metis+
  have a: "single_choice_article (\<lambda>t. []) [distractor_of [24212, 24403], distractor_of [31105, 27490]]
             example_article [] =
           Inr (Some \<lparr> qtype = Single,
              question = single_qtext [31532, 49, 26465]
                           [20844, 27665, 24212, 24403, 36981, 23432, 27861, 24459, 12290],
              options = Some [distractor_of [24212, 24403], distractor_of [31105, 27490],
                              single_correct [24212, 24403]],
              answer = Str (letter 2),
              source = ([115, 46, 100, 111, 99, 120], [31532, 49, 26465]) \<rparr>, [])"
    unfolding single_choice_article_def example_article_entities Let_def
    by (simp add: pick_keywords_def fromkeys_def choose_stem_def rng_choice_def randbelow_def
          next_raw_def sd sh ne numeral_2_eq_2)
       (simp add: example_article_def)
  show ?thesis
    unfolding make_single_choice_def p by (simp add: a)
qed

lemma example_single_one_term:
  "make_single_choice (\<lambda>t. []) [example_article_one_term] 1 [] =
     Inr ([\<lparr> qtype = Single,
              question = single_qtext [31532, 50, 26465]
                           [20844, 27665, 24212, 24403, 36981, 23432, 27861, 24459, 12290],
              options = Some [distractor_of [24212, 24403], single_correct [24212, 24403]],
              answer = Str (letter 1),
              source = ([115, 46, 100, 111, 99, 120], [31532, 50, 26465]) \<rparr>], [])"
proof -
  have p: "build_distractor_pool (\<lambda>t. []) [example_article_one_term]
             = [distractor_of [24212, 24403]]"
    by (simp add: build_distractor_pool_def example_one_term_entities pick_keywords_def
          fromkeys_def)
  have c1: "contains [24212, 24403] (distractor_of [24212, 24403])"
    by (simp add: distractor_of_def)
  have sd: "sample_distractors [distractor_of [24212, 24403]] [24212, 24403] 3 []
              = Inr ([distractor_of [24212, 24403]], [])"
    by (simp add: sample_distractors_def c1 rng_sample_def randbelow_def next_raw_def)
  have sh: "rng_shuffle [single_correct [24212, 24403], distractor_of [24212, 24403]] []
              = ([distractor_of [24212, 24403], single_correct [24212, 24403]], [])"
    by (simp add: rng_shuffle_def randbelow_def next_raw_def)
  have ne: "distractor_of [24212, 24403] \<noteq> single_correct [24212, 24403]"
    using single_correct_not_distractor by metis
  have a: "single_choice_article (\<lambda>t. []) [distractor_of [24212, 24403]]
             example_article_one_term [] =
           Inr (Some \<lparr> qtype = Single,
              question = single_qtext [31532, 50, 26465]
                           [20844, 27665, 24212, 24403, 36981, 23432, 27861, 24459, 12290],
              options = Some [distractor_of [24212, 24403], single_correct [24212, 24403]],
              answer = Str (letter 1),
              source = ([115, 46, 100, 111, 99, 120], [31532, 50, 26465]) \<rparr>, [])"
    unfolding single_choice_article_def example_one_term_entities Let_def
    by (simp add: pick_keywords_def fromkeys_def choose_stem_def rng_choice_def randbelow_def
          next_raw_def sd sh ne)
       (simp add: example_article_one_term_def)
  show ?thesis
    unfolding make_single_choice_def p by (simp add: a)
qed

section \<open>make_multiple_choice: every question is well formed\<close>

lemma correct_positions:
  assumes "mset opts = mset (cs @ ds)" and "\<forall>d \<in> set ds. d \<notin> set cs"
  shows "length (filter (\<lambda>i. opts ! i \<in> set cs) [0..<length opts]) = length cs"
proof -
  have "length (filter (\<lambda>i. opts ! i \<in> set cs) [0..<length opts])
        = length (filter (\<lambda>x. x \<in> set cs) opts)"
    by (rule filter_nth_length)
  also have "\<dots> = size (filter_mset (\<lambda>x. x \<in> set cs) (mset opts))"
    by (metis mset_filter size_mset)
  also have "\<dots> = size (filter_mset (\<lambda>x. x \<in> set cs) (mset (cs @ ds)))"
    by (simp only: assms(1))
  also have "\<dots> = length (filter (\<lambda>x. x \<in> set cs) cs) + length (filter (\<lambda>x. x \<in> set cs) ds)"
    by (metis mset_filter size_mset filter_append length_append)
  also have "filter (\<lambda>x. x \<in> set cs) cs = cs" by simp
  also have "filter (\<lambda>x. x \<in> set cs) ds = []" using assms(2) by (simp add: filter_empty_conv)
  finally show ?thesis by simp
qed

lemma multiple_choice_article_result:
  assumes pool: "\<forall>p \<in> set pool. \<exists>kw. p = distractor_of kw"
    and dp: "distinct pool"
    and ne: "pick_keywords (extract_entities nouns_of (body art)) 6 \<noteq> [] \<longrightarrow> pool \<noteq> []"
    and keys: "set (pick_keywords (extract_entities nouns_of (body art)) 6) \<subseteq> keys"
  shows "\<exists>res r'. multiple_choice_article nouns_of pool art r = Inr (res, r')
           \<and> (\<forall>q. res = Some q \<longrightarrow> multiple_valid pool keys q)"
proof -
  let ?ents = "extract_entities nouns_of (body art)"
  let ?kws = "pick_keywords ?ents 6"
  show ?thesis
  proof (cases "length ?kws < 2")
    case True
    then show ?thesis by (simp add: multiple_choice_article_def Let_def)
  next
    case False
    then have kne: "?kws \<noteq> []" by auto
    obtain stem r1 where st: "choose_stem ?ents art r = Inr (stem, r1)"
      using choose_stem_Inr by blast
    have "(2::int) \<le> min 4 (int (length ?kws))" using False by simp
    from rng_randint_range[OF this, of r1] obtain nc r2 where
      ri: "rng_randint 2 (min 4 (int (length ?kws))) r1 = Inr (nc, r2)"
      and nc2: "2 \<le> nc" and nc4: "nc \<le> min 4 (int (length ?kws))" by blast
    have "0 \<le> nc" "nc \<le> int (length ?kws)" using nc2 nc4 by simp_all
    from rng_sample_result[OF this, of r2] obtain chosen r3 where
      sa: "rng_sample ?kws nc r2 = Inr (chosen, r3)" and lc: "length chosen = nat nc"
      and mc: "mset chosen \<subseteq># mset ?kws" by blast
    let ?correct = "map multiple_correct chosen"
    have "0 \<le> 5 - nc" using nc4 by simp
    from sample_distractors_result[OF this, of pool "join [124] ?kws" r3] obtain ds r4 where
      sd: "sample_distractors pool (join [124] ?kws) (5 - nc) r3 = Inr (ds, r4)"
      and sub: "set ds \<subseteq> set pool" and len: "int (length ds) \<le> 5 - nc"
      and dne: "pool \<noteq> [] \<and> 0 < 5 - nc \<longrightarrow> ds \<noteq> []"
      and lex: "length ds = nat (min (5 - nc) (int (length pool)))"
      and msd: "mset ds \<subseteq># mset pool" by blast
    obtain opts r5 where sh: "rng_shuffle (?correct @ ds) r4 = (opts, r5)"
      by (cases "rng_shuffle (?correct @ ds) r4")
    have ms: "mset opts = mset (?correct @ ds)"
      using rng_shuffle_mset[of "?correct @ ds" r4] sh by simp
    let ?q = "\<lparr> qtype = Multiple, question = multiple_qtext (article_no art) stem,
                options = Some opts,
                answer = Letters (map (\<lambda>i. [65 + i])
                           (filter (\<lambda>i. opts ! i \<in> set ?correct) [0..<length opts])),
                source = (source_file art, article_no art) \<rparr>"
    have lt: "letter = (\<lambda>i. [65 + i])" by (rule ext) (simp add: letter_def)
    have res: "multiple_choice_article nouns_of pool art r = Inr (Some ?q, r5)"
      using False st ri sa sd sh by (simp add: multiple_choice_article_def Let_def lt)
    have 1: "set chosen \<subseteq> keys" using mc keys by (metis set_mset_mono set_mset_mset subset_trans)
    have 2: "distinct chosen" using mc distinct_pick_keywords by (rule distinct_submultiset)
    have 3: "2 \<le> length chosen" "length chosen \<le> 4" using lc nc2 nc4 by linarith+
    have 4: "ds \<noteq> []" using dne ne kne nc4 by simp
    have 5: "length ds \<le> 3" using len nc2 by simp
    have 6: "distinct ds" using msd dp by (rule distinct_submultiset)
    have 7: "length ds = min (5 - length chosen) (length pool)" using lex lc nc2 nc4 by simp
    have "multiple_valid pool keys ?q"
      unfolding multiple_valid_def using 1 2 3 4 5 6 7 sub ms
      by (intro exI[of _ chosen] exI[of _ ds] exI[of _ opts]) simp
    with res show ?thesis by simp
  qed
qed

lemma multiple_choice_loop_results:
  assumes "\<And>art r. art \<in> set arts \<Longrightarrow>
             \<exists>res r'. multiple_choice_article nouns_of pool art r = Inr (res, r')
               \<and> (\<forall>q. res = Some q \<longrightarrow> P q)"
    and "\<forall>q \<in> set results. P q"
  shows "\<exists>results' rng'.
           multiple_choice_loop nouns_of pool cnt arts (results, rng) = Inr (results', rng')
           \<and> (\<forall>q \<in> set results'. P q)"
  using assms
proof (induction arts arbitrary: results rng)
  case Nil
  then show ?case by simp
next
  case (Cons art arts)
  have step: "\<And>a r. a \<in> set arts \<Longrightarrow>
             \<exists>res r'. multiple_choice_article nouns_of pool a r = Inr (res, r')
               \<and> (\<forall>q. res = Some q \<longrightarrow> P q)"
    using Cons.prems(1) by simp
  show ?case
  proof (cases "int (length results) \<ge> cnt")
    case True
    with Cons.prems(2) show ?thesis by simp
  next
    case False
    obtain res r1 where a: "multiple_choice_article nouns_of pool art rng = Inr (res, r1)"
      and p: "\<forall>q. res = Some q \<longrightarrow> P q"
      using Cons.prems(1)[of art rng] by auto
    show ?thesis
    proof (cases res)
      case None
      with Cons.IH[OF step Cons.prems(2), of r1] False a show ?thesis by simp
    next
      case (Some q)
      have "\<forall>x \<in> set (results @ [q]). P x" using Cons.prems(2) p Some by auto
      from Cons.IH[OF step this, of r1] False a Some show ?thesis by simp
    qed
  qed
qed

lemma multiple_correct_inject: "multiple_correct a = multiple_correct b \<Longrightarrow> a = b"
  by (simp add: multiple_correct_def)

lemma letters_positions:
  assumes "i < n"
  shows "([65 + i] \<in> set (map (\<lambda>i. [65 + i]) (filter P [0..<n]))) = P i"
  using assms by auto

lemma multiple_valid_positions:
  assumes "multiple_valid pool keys q" and "\<forall>p \<in> set pool. \<exists>kw. p = distractor_of kw"
  shows "\<exists>chosen ds opts. set chosen \<subseteq> keys \<and> distinct chosen
        \<and> 2 \<le> length chosen \<and> length chosen \<le> 4
        \<and> set ds \<subseteq> set pool \<and> ds \<noteq> [] \<and> (\<forall>d \<in> set ds. d \<notin> set (map multiple_correct chosen))
        \<and> options q = Some opts
        \<and> mset opts = mset (map multiple_correct chosen @ ds)
        \<and> answer q = Letters (map (\<lambda>i. [65 + i])
              (filter (\<lambda>i. opts ! i \<in> set (map multiple_correct chosen)) [0..<length opts]))
        \<and> length (filter (\<lambda>i. opts ! i \<in> set (map multiple_correct chosen)) [0..<length opts])
            = length chosen
        \<and> length chosen < length opts
        \<and> distinct opts \<and> length opts \<le> 5
        \<and> length ds = min (5 - length chosen) (length pool)
        \<and> (\<exists>ls. answer q = Letters ls \<and> length ls = length chosen
              \<and> (\<forall>i < length opts.
                    ([65 + i] \<in> set ls) = (opts ! i \<in> set (map multiple_correct chosen))))"
proof -
  from assms(1) obtain chosen ds opts where
    v: "set chosen \<subseteq> keys" "distinct chosen" "2 \<le> length chosen" "length chosen \<le> 4"
       "set ds \<subseteq> set pool" "ds \<noteq> []" "options q = Some opts"
       "mset opts = mset (map multiple_correct chosen @ ds)"
       "answer q = Letters (map (\<lambda>i. [65 + i])
              (filter (\<lambda>i. opts ! i \<in> set (map multiple_correct chosen)) [0..<length opts]))"
    and w: "length ds \<le> 3" "distinct ds" "length ds = min (5 - length chosen) (length pool)"
    unfolding multiple_valid_def by blast
  let ?cs = "map multiple_correct chosen"
  let ?pos = "filter (\<lambda>i. opts ! i \<in> set ?cs) [0..<length opts]"
  have nd: "\<forall>d \<in> set ds. d \<notin> set ?cs"
  proof
    fix d assume "d \<in> set ds"
    with v(5) assms(2) obtain kw where "d = distractor_of kw" by blast
    then show "d \<notin> set ?cs"
      using multiple_correct_not_distractor by (metis (no_types, lifting) imageE list.set_map)
  qed
  have c: "length ?pos = length ?cs"
    using v(8) nd by (rule correct_positions)
  have lo: "length opts = length (?cs @ ds)"
    using v(8) by (rule mset_eq_length)
  then have lt: "length chosen < length opts" using v(6) by (cases ds) auto
  have l5: "length opts \<le> 5" using lo w(3) v(3) v(4) by simp
  have "inj_on multiple_correct (set chosen)"
    by (rule inj_onI) (rule multiple_correct_inject)
  then have "distinct ?cs" using v(2) by (simp add: distinct_map)
  then have "distinct (?cs @ ds)" using w(2) nd by auto
  then have d: "distinct opts" using v(8) by (metis mset_eq_imp_distinct_iff)
  have ls: "\<exists>ls. answer q = Letters ls \<and> length ls = length chosen
              \<and> (\<forall>i < length opts. ([65 + i] \<in> set ls) = (opts ! i \<in> set ?cs))"
  proof (rule exI[of _ "map (\<lambda>i. [65 + i]) ?pos"], intro conjI allI impI)
    show "answer q = Letters (map (\<lambda>i. [65 + i]) ?pos)" by (rule v(9))
    show "length (map (\<lambda>i. [65 + i]) ?pos) = length chosen" using c by simp
    show "([65 + i] \<in> set (map (\<lambda>i. [65 + i]) ?pos)) = (opts ! i \<in> set ?cs)"
      if "i < length opts" for i
      using that by (rule letters_positions)
  qed
  have cc: "length ?pos = length chosen" using c by simp
  show ?thesis
    apply (rule exI[of _ chosen], rule exI[of _ ds], rule exI[of _ opts])
    apply (intro conjI)
    by (rule v nd cc lt d l5 w(3) ls)+
qed

section \<open>Evaluation: a multiple-choice question of the example\<close>

lemma shuffle_from_numeral:
  "shuffle_from (numeral n) x r =
     (case randbelow (numeral n + 1) r of (j, r') \<Rightarrow>
        shuffle_from (pred_numeral n) ((x[numeral n := x ! j])[j := x ! numeral n]) r')"
  by (simp add: numeral_eq_Suc)

lemma example_multiple:
  "make_multiple_choice (\<lambda>t. []) [example_article] 1 [] =
     Inr ([\<lparr> qtype = Multiple,
              question = multiple_qtext [31532, 49, 26465]
                           [20844, 27665, 24212, 24403, 36981, 23432, 27861, 24459, 12290],
              options = Some [multiple_correct [31105, 27490], distractor_of [24212, 24403],
                 distractor_of [31105, 27490], multiple_correct [24212, 24403]],
              answer = Letters [letter 0, letter 3],
              source = ([115, 46, 100, 111, 99, 120], [31532, 49, 26465]) \<rparr>], [])"
proof -
  have p: "build_distractor_pool (\<lambda>t. []) [example_article]
             = [distractor_of [24212, 24403], distractor_of [31105, 27490]]"
    by (simp add: build_distractor_pool_def example_article_entities pick_keywords_def
          fromkeys_def distractor_of_def)
  have c1: "\<not> contains [24212, 24403, 124, 31105, 27490] (distractor_of [24212, 24403])"
    and c2: "\<not> contains [24212, 24403, 124, 31105, 27490] (distractor_of [31105, 27490])"
    by (simp_all add: distractor_of_def)
  have sd: "sample_distractors [distractor_of [24212, 24403], distractor_of [31105, 27490]]
              [24212, 24403, 124, 31105, 27490] 3 []
            = Inr ([distractor_of [24212, 24403], distractor_of [31105, 27490]], [])"
    by (simp add: sample_distractors_def c1 c2 rng_sample_def randbelow_def next_raw_def
          numeral_2_eq_2)
  have sa: "rng_sample [[24212, 24403], [31105, 27490]] 2 [] = Inr ([[24212, 24403], [31105, 27490]], [])"
    by (simp add: rng_sample_def randbelow_def next_raw_def numeral_2_eq_2)
  have ri: "rng_randint 2 2 [] = Inr (2, [])"
    by (simp add: rng_randint_def randbelow_def next_raw_def)
  have sh: "rng_shuffle [multiple_correct [24212, 24403], multiple_correct [31105, 27490],
                         distractor_of [24212, 24403], distractor_of [31105, 27490]] []
              = ([multiple_correct [31105, 27490], distractor_of [24212, 24403],
                 distractor_of [31105, 27490], multiple_correct [24212, 24403]], [])"
    by (simp add: rng_shuffle_def randbelow_def next_raw_def shuffle_from_numeral)
  have ne: "distractor_of [24212, 24403] \<noteq> multiple_correct [24212, 24403]"
      "distractor_of [24212, 24403] \<noteq> multiple_correct [31105, 27490]"
      "distractor_of [31105, 27490] \<noteq> multiple_correct [24212, 24403]"
      "distractor_of [31105, 27490] \<noteq> multiple_correct [31105, 27490]"
      "multiple_correct [31105, 27490] \<noteq> multiple_correct [24212, 24403]"
    by (simp_all add: distractor_of_def multiple_correct_def)
  have a: "multiple_choice_article (\<lambda>t. []) [distractor_of [24212, 24403], distractor_of [31105, 27490]]
             example_article [] =
           Inr (Some \<lparr> qtype = Multiple,
              question = multiple_qtext [31532, 49, 26465]
                           [20844, 27665, 24212, 24403, 36981, 23432, 27861, 24459, 12290],
              options = Some [multiple_correct [31105, 27490], distractor_of [24212, 24403],
                 distractor_of [31105, 27490], multiple_correct [24212, 24403]],
              answer = Letters [letter 0, letter 3],
              source = ([115, 46, 100, 111, 99, 120], [31532, 49, 26465]) \<rparr>, [])"
    unfolding multiple_choice_article_def example_article_entities Let_def
    by (simp add: pick_keywords_def fromkeys_def choose_stem_def rng_choice_def randbelow_def
          next_raw_def ri sa sd sh ne letter_def)
       (simp add: example_article_def)
  show ?thesis
    unfolding make_multiple_choice_def p by (simp add: a)
qed

section \<open>Targets of make_fill_blank occur in the article text\<close>

lemma startswith_ws_sub:
  "startswith t (whitespace_re_sub x) \<Longrightarrow> \<forall>c \<in> set t. \<not> isspace c \<Longrightarrow> startswith t x"
proof (induction x arbitrary: t rule: whitespace_re_sub.induct)
  case 1
  then show ?case by simp
next
  case (2 c cs)
  show ?case
  proof (cases t)
    case Nil
    then show ?thesis by simp
  next
    case (Cons a t')
    with "2.prems"(2) have na: "\<not> isspace a" and nt: "\<forall>c \<in> set t'. \<not> isspace c" by simp_all
    show ?thesis
    proof (cases "isspace c")
      case True
      with "2.prems"(1) Cons have "a = 32" by simp
      with na isspace_32 show ?thesis by simp
    next
      case False
      with "2.prems"(1) Cons have ac: "a = c" and st: "startswith t' (whitespace_re_sub cs)"
        by simp_all
      from "2.IH"(2)[OF False st nt] ac Cons show ?thesis by simp
    qed
  qed
qed

lemma contains_dropWhile: "contains t (dropWhile P s) \<Longrightarrow> contains t s"
proof -
  assume "contains t (dropWhile P s)"
  then have "contains t (takeWhile P s @ dropWhile P s)" by (rule contains_appendR)
  then show ?thesis by simp
qed

lemma contains_ws_sub:
  "contains t (whitespace_re_sub x) \<Longrightarrow> t \<noteq> [] \<Longrightarrow> \<forall>c \<in> set t. \<not> isspace c \<Longrightarrow> contains t x"
proof (induction x rule: whitespace_re_sub.induct)
  case 1
  then show ?case by simp
next
  case (2 c cs)
  show ?case
  proof (cases "isspace c")
    case True
    have "\<not> startswith t (32 # whitespace_re_sub (dropWhile isspace cs))"
    proof
      assume s: "startswith t (32 # whitespace_re_sub (dropWhile isspace cs))"
      from "2.prems"(2) obtain a t' where t: "t = a # t'" by (cases t) auto
      with s have "a = 32" by simp
      with t "2.prems"(3) isspace_32 show False by simp
    qed
    with "2.prems"(1) True have "contains t (whitespace_re_sub (dropWhile isspace cs))" by simp
    from "2.IH"(1)[OF True this "2.prems"(2,3)] have "contains t cs" by (rule contains_dropWhile)
    then show ?thesis by simp
  next
    case False
    from "2.prems"(1) False
    consider "startswith t (whitespace_re_sub (c # cs))" | "contains t (whitespace_re_sub cs)"
      by auto
    then show ?thesis
    proof cases
      case 1
      from startswith_ws_sub[OF this "2.prems"(3)] show ?thesis by simp
    next
      case 2
      from "2.IH"(2)[OF False this "2.prems"(2,3)] show ?thesis by simp
    qed
  qed
qed

lemma strip_decomp: "\<exists>a b. s = a @ strip s @ b"
proof -
  obtain zs where z: "strip s @ zs = dropWhile isspace s"
    unfolding strip_def using rstrip_prefix by blast
  have "s = takeWhile isspace s @ dropWhile isspace s" by simp
  with z have "s = takeWhile isspace s @ strip s @ zs" by simp
  then show ?thesis by blast
qed

lemma contains_strip: "contains t (strip s) \<Longrightarrow> contains t s"
proof -
  assume c: "contains t (strip s)"
  obtain a b where "s = a @ strip s @ b" using strip_decomp by blast
  with contains_extend[OF c, of a b] show ?thesis by simp
qed

lemma normalize_text_strip_sub: "normalize_text x = strip (whitespace_re_sub x)"
  by (simp add: normalize_text_def nbsp_collapsed collapsed_ws_sub)

lemma contains_normalize_text:
  "contains t (normalize_text x) \<Longrightarrow> t \<noteq> [] \<Longrightarrow> \<forall>c \<in> set t. \<not> isspace c \<Longrightarrow> contains t x"
  unfolding normalize_text_strip_sub using contains_strip contains_ws_sub by blast

lemma KEY_TERMS_plain: "t \<in> set KEY_TERMS \<Longrightarrow> t \<noteq> [] \<and> (\<forall>c \<in> set t. \<not> isspace c)"
  unfolding KEY_TERMS_def by (auto simp: isspace_def)

lemma isdecimal_iff: "isdecimal c \<longleftrightarrow> (\<exists>z \<in> set digit_zeros. z \<le> c \<and> c < z + 10)"
proof -
  have "isdecimal c \<longleftrightarrow> filter (\<lambda>z. z \<le> c \<and> c < z + 10) digit_zeros \<noteq> []"
    by (simp add: isdecimal_def digit_value_def split: list.splits)
  then show ?thesis by (simp add: filter_empty_conv)
qed

lemma range_not_decimal:
  assumes "lo \<le> c" and "c \<le> hi" and "\<forall>z \<in> set digit_zeros. hi < z \<or> z + 10 \<le> lo"
  shows "\<not> isdecimal c"
proof
  assume "isdecimal c"
  then obtain z where z: "z \<in> set digit_zeros" "z \<le> c" "c < z + 10"
    unfolding isdecimal_iff by blast
  with assms(3) have "hi < z \<or> z + 10 \<le> lo" by blast
  with z assms(1,2) show False by linarith
qed

lemma space_not_decimal: "isspace c \<Longrightarrow> \<not> isdecimal c"
proof -
  assume "isspace c"
  then consider "9 \<le> c \<and> c \<le> 32" | "133 \<le> c \<and> c \<le> 160" | "5760 \<le> c \<and> c \<le> 5760"
    | "8192 \<le> c \<and> c \<le> 12288"
    unfolding isspace_def by linarith
  then show ?thesis
  proof cases
    case 1
    then show ?thesis by (intro range_not_decimal[of 9 c 32]) (simp_all add: digit_zeros_def)
  next
    case 2
    then show ?thesis by (intro range_not_decimal[of 133 c 160]) (simp_all add: digit_zeros_def)
  next
    case 3
    then show ?thesis by (intro range_not_decimal[of 5760 c 5760]) (simp_all add: digit_zeros_def)
  next
    case 4
    then show ?thesis by (intro range_not_decimal[of 8192 c 12288]) (simp_all add: digit_zeros_def)
  qed
qed

lemma findall_numbers_member:
  "n \<in> set (findall_numbers y) \<Longrightarrow> n \<noteq> [] \<and> (\<forall>c \<in> set n. isdecimal c) \<and> contains n y"
proof (induction y rule: findall_numbers.induct)
  case 1
  then show ?case by simp
next
  case (2 c cs)
  show ?case
  proof (cases "isdecimal c")
    case True
    from "2.prems" True
    consider "n = takeWhile isdecimal (c # cs)" | "n \<in> set (findall_numbers (dropWhile isdecimal cs))"
      by auto
    then show ?thesis
    proof cases
      case 1
      have "startswith n (n @ dropWhile isdecimal (c # cs))" by (rule startswith_append)
      then have "startswith n (c # cs)" using 1 by (simp only: takeWhile_dropWhile_id)
      moreover have "n \<noteq> []" using 1 True by simp
      moreover have "\<forall>x \<in> set n. isdecimal x" using 1 by (auto dest: set_takeWhileD)
      ultimately show ?thesis by simp
    next
      case 2
      from "2.IH"(1)[OF True 2] have "n \<noteq> []" "\<forall>c \<in> set n. isdecimal c"
        and "contains n (dropWhile isdecimal cs)" by simp_all
      then show ?thesis using contains_dropWhile by auto
    qed
  next
    case False
    with "2.prems" have "n \<in> set (findall_numbers cs)" by simp
    from "2.IH"(2)[OF False this] show ?thesis by simp
  qed
qed

lemma candidate_in_text:
  assumes "target \<in> set (terms (extract_entities nouns_of x) @ numbers (extract_entities nouns_of x))"
  shows "target \<noteq> [] \<and> contains target x"
proof -
  from assms consider "target \<in> set KEY_TERMS \<and> contains target (normalize_text x)"
    | "target \<in> set (findall_numbers (normalize_text x))"
    by (auto simp: extract_entities_def Let_def)
  then show ?thesis
  proof cases
    case 1
    with KEY_TERMS_plain[of target] contains_normalize_text[of target x] show ?thesis by blast
  next
    case 2
    from findall_numbers_member[OF this] have "target \<noteq> []" "\<forall>c \<in> set target. isdecimal c"
      and c: "contains target (normalize_text x)" by simp_all
    then have "\<forall>c \<in> set target. \<not> isspace c" using space_not_decimal by blast
    with contains_normalize_text[OF c] \<open>target \<noteq> []\<close> show ?thesis by blast
  qed
qed

section \<open>Occurrences of the blank marker\<close>

lemma occurrences_pos: "contains p s \<Longrightarrow> 1 \<le> occurrences p s"
  by (induction s) auto

lemma occurrences_zero: "\<not> contains p s \<Longrightarrow> occurrences p s = 0"
  by (induction s) auto

lemma startswith_split:
  "startswith p (xs @ ys) \<Longrightarrow> length xs < length p \<Longrightarrow> startswith (drop (length xs) p) ys"
proof -
  assume a: "startswith p (xs @ ys)" and l: "length xs < length p"
  then obtain r where r: "xs @ ys = p @ r" by (auto simp: startswith_iff)
  then have "drop (length xs) (xs @ ys) = drop (length xs) (p @ r)" by simp
  then have "ys = drop (length xs) p @ r" using l by simp
  then show ?thesis by (simp add: startswith_iff)
qed

lemma startswith_within:
  "startswith p (xs @ ys) \<Longrightarrow> length p \<le> length xs \<Longrightarrow> startswith p xs"
proof -
  assume a: "startswith p (xs @ ys)" and l: "length p \<le> length xs"
  then obtain r where r: "xs @ ys = p @ r" by (auto simp: startswith_iff)
  then have "take (length p) (xs @ ys) = p" by simp
  then have "take (length p) xs = p" using l by simp
  then have "xs = p @ drop (length p) xs" by (metis append_take_drop_id)
  then show ?thesis unfolding startswith_iff by blast
qed

lemma no_early_occurrence:
  assumes "a \<notin> set m" and "xs \<noteq> []" and "\<not> startswith (a # m) xs"
  shows "\<not> startswith (a # m) (xs @ (a # m) @ post)"
proof
  assume s: "startswith (a # m) (xs @ (a # m) @ post)"
  show False
  proof (cases "length (a # m) \<le> length xs")
    case True
    from startswith_within[OF s True] assms(3) show False by simp
  next
    case False
    then have l: "length xs < length (a # m)" by simp
    from startswith_split[OF s l] have d: "startswith (drop (length xs) (a # m)) ((a # m) @ post)" .
    from assms(2) obtain k where k: "length xs = Suc k" by (cases xs) auto
    with l have km: "k < length m" by simp
    from d k have "startswith (drop k m) (a # m @ post)" by simp
    moreover from km obtain b bs where b: "drop k m = b # bs" by (cases "drop k m") auto
    ultimately have "b = a" by simp
    moreover have "b \<in> set m" using b by (metis in_set_dropD list.set_intros(1))
    ultimately show False using assms(1) by simp
  qed
qed

lemma occurrences_skip:
  "a \<notin> set xs \<Longrightarrow> occurrences (a # m) (xs @ post) = occurrences (a # m) post"
  by (induction xs) auto

lemma occurrences_inserted:
  assumes "a \<notin> set m" and "\<not> contains (a # m) pre" and "\<not> contains (a # m) post"
  shows "occurrences (a # m) (pre @ (a # m) @ post) = 1"
  using assms(2)
proof (induction pre)
  case Nil
  have "occurrences (a # m) (m @ post) = occurrences (a # m) post"
    using assms(1) by (rule occurrences_skip)
  then show ?case using assms(3) by (simp add: occurrences_zero startswith_append)
next
  case (Cons c pre)
  then have n1: "\<not> startswith (a # m) (c # pre)" and n2: "\<not> contains (a # m) pre" by simp_all
  have "\<not> startswith (a # m) ((c # pre) @ (a # m) @ post)"
    using assms(1) _ n1 by (rule no_early_occurrence) simp
  then show ?case using Cons.IH[OF n2] by simp
qed

lemma blank_marker_head: "blank_marker = 92 # tl blank_marker \<and> 92 \<notin> set (tl blank_marker)"
  by (simp add: blank_marker_def)

lemma occurrences_blank_marker:
  assumes "\<not> contains blank_marker (pre @ t @ post)"
  shows "occurrences blank_marker (pre @ blank_marker @ post) = 1"
proof -
  have p: "\<not> contains blank_marker pre"
    using assms contains_appendL[of blank_marker pre "t @ post"] by blast
  have q: "\<not> contains blank_marker post"
    using assms contains_appendR[of blank_marker post "pre @ t"] by auto
  obtain m where m: "blank_marker = 92 # m" "92 \<notin> set m" using blank_marker_head by blast
  from occurrences_inserted[OF m(2) p[unfolded m(1)] q[unfolded m(1)]] m(1) show ?thesis by simp
qed

section \<open>make_fill_blank: every question is well formed\<close>

lemma blank_text_contains:
  "contains target (body art) \<Longrightarrow> contains target (blank_text target sent art)"
  by (simp add: blank_text_def)

lemma fill_blank_article_result:
  "\<exists>res r'. fill_blank_article nouns_of art r = Inr (res, r')
     \<and> (\<forall>q. res = Some q \<longrightarrow> fill_valid nouns_of art q)"
proof -
  let ?ents = "extract_entities nouns_of (body art)"
  let ?cands = "terms ?ents @ numbers ?ents"
  show ?thesis
  proof (cases "?cands = []")
    case True
    then show ?thesis by (simp add: fill_blank_article_def Let_def)
  next
    case False
    obtain target r1 where ch: "rng_choice ?cands r = Inr (target, r1)" and tm: "target \<in> set ?cands"
      using rng_choice_Inr[OF False, of r] by blast
    from candidate_in_text[OF tm] have tne: "target \<noteq> []" and tb: "contains target (body art)"
      by simp_all
    obtain sent r2 where
      sc: "(if sentences ?ents \<noteq> [] then rng_choice (sentences ?ents) r1 else Inr (body art, r1))
             = Inr (sent, r2)"
      and sm: "sent = body art \<or> sent \<in> set (sentences ?ents)"
    proof (cases "sentences ?ents = []")
      case True
      then show ?thesis using that by simp
    next
      case False
      from rng_choice_Inr[OF this, of r1] obtain x r' where
        "rng_choice (sentences ?ents) r1 = Inr (x, r')" "x \<in> set (sentences ?ents)" by blast
      with False show ?thesis using that by simp
    qed
    let ?bt = "blank_text target sent art"
    have bm: "?bt = body art \<or> ?bt \<in> set (sentences ?ents)"
      using sm by (auto simp: blank_text_def)
    have bc: "contains target ?bt" using tb by (rule blank_text_contains)
    from replace1_decomp[OF bc tne, of blank_marker] obtain pre post where
      d: "?bt = pre @ target @ post" and rp: "replace1 target blank_marker ?bt = pre @ blank_marker @ post"
      and fo: "\<not> contains target (pre @ butlast target)" by blast
    let ?q = "\<lparr> qtype = Fill, question = replace1 target blank_marker ?bt,
                options = None, answer = Str target,
                source = (source_file art, article_no art) \<rparr>"
    have res: "fill_blank_article nouns_of art r = Inr (Some ?q, r2)"
      using False ch sc by (simp add: fill_blank_article_def Let_def)
    have "contains blank_marker (pre @ blank_marker @ post)"
      unfolding contains_iff by blast
    then have o1: "1 \<le> occurrences blank_marker (pre @ blank_marker @ post)"
      by (rule occurrences_pos)
    have o2: "contains blank_marker ?bt \<or> occurrences blank_marker (pre @ blank_marker @ post) = 1"
      using occurrences_blank_marker[of pre target post] d by auto
    have "fill_valid nouns_of art ?q"
      unfolding fill_valid_def
      by (intro exI[of _ target] exI[of _ ?bt] exI[of _ pre] exI[of _ post])
         (use tne tm bm d fo rp o1 o2 in simp)
    with res show ?thesis by simp
  qed
qed

lemma fill_blank_loop_results:
  assumes "\<forall>q \<in> set results. \<exists>art \<in> A. fill_valid nouns_of art q" and "set arts \<subseteq> A"
  shows "\<exists>results' rng'.
           fill_blank_loop nouns_of cnt arts (results, rng) = Inr (results', rng')
           \<and> (\<forall>q \<in> set results'. \<exists>art \<in> A. fill_valid nouns_of art q)"
  using assms
proof (induction arts arbitrary: results rng)
  case Nil
  then show ?case by simp
next
  case (Cons art arts)
  have sub: "set arts \<subseteq> A" and aA: "art \<in> A" using Cons.prems(2) by simp_all
  show ?case
  proof (cases "int (length results) \<ge> cnt")
    case True
    with Cons.prems(1) show ?thesis by simp
  next
    case False
    obtain res r1 where a: "fill_blank_article nouns_of art rng = Inr (res, r1)"
      and p: "\<forall>q. res = Some q \<longrightarrow> fill_valid nouns_of art q"
      using fill_blank_article_result[of nouns_of art rng] by auto
    show ?thesis
    proof (cases res)
      case None
      with Cons.IH[OF Cons.prems(1) sub, of r1] False a show ?thesis by simp
    next
      case (Some q)
      have "\<forall>x \<in> set (results @ [q]). \<exists>art \<in> A. fill_valid nouns_of art x"
        using Cons.prems(1) p Some aA by auto
      from Cons.IH[OF this sub, of r1] False a Some show ?thesis by simp
    qed
  qed
qed

section \<open>Evaluation: fill-blank questions of the examples\<close>

lemma example_fill:
  "make_fill_blank (\<lambda>t. []) [example_article] 1 [0, 4] =
     Inr ([\<lparr> qtype = Fill,
              question = [20844, 27665] @ blank_marker
                 @ [36981, 23432, 27861, 24459, 12290, 31105, 27490, 28389, 29992, 26435, 21033, 12290, 22909, 12290],
              options = None, answer = Str [24212, 24403],
              source = ([115, 46, 100, 111, 99, 120], [31532, 49, 26465]) \<rparr>], [])"
proof -
  have b: "blank_text [24212, 24403] [31105, 27490, 28389, 29992, 26435, 21033, 12290] example_article
             = body example_article"
    by (simp add: blank_text_def)
  have r: "replace1 [24212, 24403] blank_marker (body example_article)
             = [20844, 27665] @ blank_marker
                 @ [36981, 23432, 27861, 24459, 12290, 31105, 27490, 28389, 29992, 26435, 21033, 12290, 22909, 12290]"
    by (simp add: example_article_def)
  have a: "fill_blank_article (\<lambda>t. []) example_article [0, 4] =
     Inr (Some \<lparr> qtype = Fill,
              question = [20844, 27665] @ blank_marker
                 @ [36981, 23432, 27861, 24459, 12290, 31105, 27490, 28389, 29992, 26435, 21033, 12290, 22909, 12290],
              options = None, answer = Str [24212, 24403],
              source = ([115, 46, 100, 111, 99, 120], [31532, 49, 26465]) \<rparr>, [])"
    unfolding fill_blank_article_def example_article_entities Let_def
    by (simp add: rng_choice_def randbelow_def next_raw_def b r)
       (simp add: example_article_def)
  show ?thesis
    unfolding make_fill_blank_def by (simp add: a)
qed

lemma example_marker_entities:
  "extract_entities (\<lambda>t. []) (body example_article_marker) =
     \<lparr> numbers = [[50], [48], [52]], terms = [[24212, 24403]], nouns = [],
       sentences = [[92, 114, 117, 108, 101, 123, 50, 99, 109, 125, 123, 48, 46, 52, 112, 116, 125, 24212, 24403, 12290]] \<rparr>"
proof -
  have e: "normalize_text (body example_article_marker) = body example_article_marker"
    by (simp add: example_article_marker_def normalize_text_def strip_def replace_nbsp_def
          isspace_def)
  have s: "split_sentences (body example_article_marker) =
     [[92, 114, 117, 108, 101, 123, 50, 99, 109, 125, 123, 48, 46, 52, 112, 116, 125, 24212, 24403, 12290]]"
    by (simp add: example_article_marker_def split_sentences_def is_terminal_def strip_def
          isspace_def)
  have d: "isdecimal 50" "isdecimal 48" "isdecimal 52" "\<not> isdecimal 92" "\<not> isdecimal 114"
    "\<not> isdecimal 117" "\<not> isdecimal 108" "\<not> isdecimal 101" "\<not> isdecimal 123"
    "\<not> isdecimal 99" "\<not> isdecimal 109" "\<not> isdecimal 125" "\<not> isdecimal 46"
    "\<not> isdecimal 112" "\<not> isdecimal 116" "\<not> isdecimal 24212" "\<not> isdecimal 24403"
    "\<not> isdecimal 12290"
    by (simp_all add: isdecimal_def digit_value_def digit_zeros_def)
  have n: "findall_numbers (body example_article_marker) = [[50], [48], [52]]"
    by (simp add: example_article_marker_def d)
  have t: "filter (\<lambda>k. contains k (body example_article_marker)) KEY_TERMS = [[24212, 24403]]"
    by (simp add: example_article_marker_def KEY_TERMS_def)
  show ?thesis
    unfolding extract_entities_def Let_def e s n t by simp
qed

lemma example_fill_marker:
  "make_fill_blank (\<lambda>t. []) [example_article_marker] 1 [] =
     Inr ([\<lparr> qtype = Fill,
              question = blank_marker @ blank_marker @ [12290],
              options = None, answer = Str [24212, 24403],
              source = ([115, 46, 100, 111, 99, 120], [31532, 51, 26465]) \<rparr>], [])"
proof -
  have b: "blank_text [24212, 24403] (body example_article_marker) example_article_marker
             = body example_article_marker"
    by (simp add: blank_text_def)
  have r: "replace1 [24212, 24403] blank_marker (body example_article_marker)
             = blank_marker @ blank_marker @ [12290]"
    by (simp add: example_article_marker_def blank_marker_def)
  have bd: "[92, 114, 117, 108, 101, 123, 50, 99, 109, 125, 123, 48, 46, 52, 112, 116, 125, 24212, 24403, 12290] = body example_article_marker"
    by (simp add: example_article_marker_def)
  have a: "fill_blank_article (\<lambda>t. []) example_article_marker [] =
     Inr (Some \<lparr> qtype = Fill,
              question = blank_marker @ blank_marker @ [12290],
              options = None, answer = Str [24212, 24403],
              source = ([115, 46, 100, 111, 99, 120], [31532, 51, 26465]) \<rparr>, [])"
    unfolding fill_blank_article_def example_marker_entities Let_def bd
    by (simp add: rng_choice_def randbelow_def next_raw_def b r)
       (simp add: example_article_marker_def)
  show ?thesis
    unfolding make_fill_blank_def by (simp add: a)
qed

lemma example_article_no_marker:
  "\<not> contains blank_marker (body example_article)"
  "\<not> contains blank_marker [20844, 27665, 24212, 24403, 36981, 23432, 27861, 24459, 12290]"
  "\<not> contains blank_marker [31105, 27490, 28389, 29992, 26435, 21033, 12290]"
  "\<not> contains blank_marker [22909, 12290]"
  by (simp_all add: blank_marker_def example_article_def)

section \<open>assemble_exam: the generators never raise\<close>

lemma make_single_choice_total:
  "\<exists>results rng'. make_single_choice nouns_of arts cnt rng = Inr (results, rng')"
proof -
  let ?pool = "build_distractor_pool nouns_of arts"
  have step: "\<exists>res r'. single_choice_article nouns_of ?pool art r = Inr (res, r')
               \<and> (\<forall>q. res = Some q \<longrightarrow> True)"
    if "art \<in> set arts" for art r
  proof -
    have "\<exists>res r'. single_choice_article nouns_of ?pool art r = Inr (res, r')
               \<and> (\<forall>q. res = Some q \<longrightarrow> single_valid ?pool UNIV q)"
    proof (rule single_choice_article_result)
      show "\<forall>p \<in> set ?pool. \<exists>kw. p = distractor_of kw" using pool_entries by blast
      show "distinct ?pool" by (rule distinct_pool)
      show "pick_keywords (extract_entities nouns_of (body art)) 5 \<noteq> [] \<longrightarrow> ?pool \<noteq> []"
        using pool_nonempty[OF that] by blast
      show "set (pick_keywords (extract_entities nouns_of (body art)) 5) \<subseteq> UNIV" by simp
    qed
    then show ?thesis by blast
  qed
  have "\<exists>results' seen' rng'.
           single_choice_loop nouns_of ?pool cnt arts ([], {}, rng) = Inr (results', seen', rng')
           \<and> (\<forall>q \<in> set results'. True)"
    by (rule single_choice_loop_results) (use step in simp_all)
  then show ?thesis by (auto simp: make_single_choice_def)
qed

lemma make_multiple_choice_total:
  "\<exists>results rng'. make_multiple_choice nouns_of arts cnt rng = Inr (results, rng')"
proof -
  let ?pool = "build_distractor_pool nouns_of arts"
  have step: "\<exists>res r'. multiple_choice_article nouns_of ?pool art r = Inr (res, r')
               \<and> (\<forall>q. res = Some q \<longrightarrow> True)"
    if "art \<in> set arts" for art r
  proof -
    have "\<exists>res r'. multiple_choice_article nouns_of ?pool art r = Inr (res, r')
               \<and> (\<forall>q. res = Some q \<longrightarrow> multiple_valid ?pool UNIV q)"
    proof (rule multiple_choice_article_result)
      show "\<forall>p \<in> set ?pool. \<exists>kw. p = distractor_of kw" using pool_entries by blast
      show "distinct ?pool" by (rule distinct_pool)
      show "pick_keywords (extract_entities nouns_of (body art)) 6 \<noteq> [] \<longrightarrow> ?pool \<noteq> []"
        using pool_nonempty[OF that] by blast
      show "set (pick_keywords (extract_entities nouns_of (body art)) 6) \<subseteq> UNIV" by simp
    qed
    then show ?thesis by blast
  qed
  have "\<exists>results' rng'.
           multiple_choice_loop nouns_of ?pool cnt arts ([], rng) = Inr (results', rng')
           \<and> (\<forall>q \<in> set results'. True)"
    by (rule multiple_choice_loop_results) (use step in simp_all)
  then show ?thesis by (auto simp: make_multiple_choice_def)
qed

lemma make_fill_blank_total:
  "\<exists>results rng'. make_fill_blank nouns_of arts cnt rng = Inr (results, rng')"
proof -
  have "\<exists>results' rng'.
           fill_blank_loop nouns_of cnt arts ([], rng) = Inr (results', rng')
           \<and> (\<forall>q \<in> set results'. \<exists>art \<in> set arts. fill_valid nouns_of art q)"
    by (rule fill_blank_loop_results) simp_all
  then show ?thesis by (auto simp: make_fill_blank_def)
qed

lemma assemble_exam_Inl:
  "sample_articles articles cfg g = Inl e \<Longrightarrow> assemble_exam nouns_of articles cfg rng g = Inl e"
  by (simp add: assemble_exam_def)

lemma assemble_exam_Inr:
  assumes "sample_articles articles cfg g = Inr ((tf_arts, sc_arts, mc_arts, fb_arts), g')"
  shows "\<exists>tf r1 sc r2 mc r3 fb r4.
           make_true_false nouns_of tf_arts (counts_get (counts cfg) ''true_false'') rng = (tf, r1)
         \<and> make_single_choice nouns_of sc_arts (counts_get (counts cfg) ''single_choice'') r1
             = Inr (sc, r2)
         \<and> make_multiple_choice nouns_of mc_arts (counts_get (counts cfg) ''multiple_choice'') r2
             = Inr (mc, r3)
         \<and> make_fill_blank nouns_of fb_arts (counts_get (counts cfg) ''fill_blank'') r3
             = Inr (fb, r4)
         \<and> assemble_exam nouns_of articles cfg rng g =
             Inr (\<lparr> true_false = tf, single = sc, multiple = mc, fill = fb,
                    short = make_short_answers (short_candidates articles cfg)
                              (counts_get (counts cfg) ''short_answer'') \<rparr>, r4, g')"
proof -
  obtain tf r1 where 1:
    "make_true_false nouns_of tf_arts (counts_get (counts cfg) ''true_false'') rng = (tf, r1)"
    by (cases "make_true_false nouns_of tf_arts (counts_get (counts cfg) ''true_false'') rng")
  obtain sc r2 where 2:
    "make_single_choice nouns_of sc_arts (counts_get (counts cfg) ''single_choice'') r1 = Inr (sc, r2)"
    using make_single_choice_total by blast
  obtain mc r3 where 3:
    "make_multiple_choice nouns_of mc_arts (counts_get (counts cfg) ''multiple_choice'') r2
       = Inr (mc, r3)"
    using make_multiple_choice_total by blast
  obtain fb r4 where 4:
    "make_fill_blank nouns_of fb_arts (counts_get (counts cfg) ''fill_blank'') r3 = Inr (fb, r4)"
    using make_fill_blank_total by blast
  have "assemble_exam nouns_of articles cfg rng g =
             Inr (\<lparr> true_false = tf, single = sc, multiple = mc, fill = fb,
                    short = make_short_answers (short_candidates articles cfg)
                              (counts_get (counts cfg) ''short_answer'') \<rparr>, r4, g')"
    using assms 1 2 3 4 by (simp add: assemble_exam_def)
  with 1 2 3 4 show ?thesis by blast
qed

section \<open>Evaluation: assemble_exam on the examples\<close>

lemma example_counts:
  "counts_get (counts example_config) ''true_false'' = 1"
  "counts_get (counts example_config) ''single_choice'' = 0"
  "counts_get (counts example_config) ''multiple_choice'' = 0"
  "counts_get (counts example_config) ''fill_blank'' = 0"
  "counts_get (counts example_config) ''short_answer'' = 0"
  by (simp_all add: example_config_def counts_get_def)

lemma example_config_weights:
  "article_weights arts (weights example_config) = map (\<lambda>a. 1) arts"
  by (simp add: article_weights_def example_config_def)

lemma choices_draw_numeral:
  "choices_draw (numeral n) population cum g =
     (case rng_random g of (u, g') \<Rightarrow>
        (case choices_draw (pred_numeral n) population cum g' of (rest, g'') \<Rightarrow>
           (population ! bisect_right cum (u * last cum) 0 (length population - 1) # rest, g'')))"
  by (simp add: numeral_eq_Suc)

lemma example_sample_low:
  "sample_articles [example_article, example_article_marker] example_config []
     = Inr (([example_article, example_article], [], [], []), [])"
  by (simp add: sample_articles_def example_counts weighted_sample_def example_config_weights
        choices_def isfinite_total_small rng_random_def next_raw_def bisect_right.simps choices_draw_numeral)

lemma example_sample_high:
  "sample_articles [example_article, example_article_marker] example_config
       [9007199254740991, 9007199254740991]
     = Inr (([example_article_marker, example_article_marker], [], [], []), [])"
  by (simp add: sample_articles_def example_counts weighted_sample_def example_config_weights
        choices_def isfinite_total_small rng_random_def next_raw_def bisect_right.simps choices_draw_numeral)

lemma example_sample_one:
  "sample_articles [example_article] example_config []
     = Inr (([example_article], [], [], []), [])"
  "sample_articles [example_article] example_config [5, 6]
     = Inr (([example_article], [], [], []), [6])"
  by (simp_all add: sample_articles_def example_counts weighted_sample_def example_config_weights
        choices_def isfinite_total_small rng_random_def next_raw_def bisect_right.simps)

lemma generators_on_nothing:
  "make_single_choice nouns_of [] 0 r = Inr ([], r)"
  "make_multiple_choice nouns_of [] 0 r = Inr ([], r)"
  "make_fill_blank nouns_of [] 0 r = Inr ([], r)"
  "make_short_answers (short_candidates arts example_config) 0 = []"
  by (simp_all add: make_single_choice_def make_multiple_choice_def make_fill_blank_def
        make_short_answers_def short_candidates_def example_config_def counts_get_def)

lemma example_true_false_low:
  "make_true_false (\<lambda>t. []) [example_article, example_article] 1 [] =
     ([\<lparr> qtype = TrueFalse, question = [20844, 27665, 19981, 24471, 36981, 23432, 27861, 24459, 12290],
                 options = Some [dui, cuo], answer = Str cuo,
                 source = ([115, 46, 100, 111, 99, 120], [31532, 49, 26465]) \<rparr>], [])"
  unfolding make_true_false_def
  by (simp add: example_article_sentences example_negated rng_random_def next_raw_def)
     (simp add: example_article_def)

lemma example_negated_marker:
  "negate_statement (body example_article_marker) = blank_marker @ [19981, 24471, 12290]"
  by (simp add: negate_statement_def swaps_def example_article_marker_def blank_marker_def)

lemma example_true_false_high:
  "make_true_false (\<lambda>t. []) [example_article_marker, example_article_marker] 1 [] =
     ([\<lparr> qtype = TrueFalse, question = blank_marker @ [19981, 24471, 12290],
                 options = Some [dui, cuo], answer = Str cuo,
                 source = ([115, 46, 100, 111, 99, 120], [31532, 51, 26465]) \<rparr>], [])"
proof -
  have bd: "[92, 114, 117, 108, 101, 123, 50, 99, 109, 125, 123, 48, 46, 52, 112, 116, 125, 24212, 24403, 12290] = body example_article_marker"
    by (simp add: example_article_marker_def)
  have l: "length (body example_article_marker) = 20" by (simp add: example_article_marker_def)
  show ?thesis
    unfolding make_true_false_def
    by (simp add: example_marker_entities bd l example_negated_marker rng_random_def next_raw_def)
       (simp add: example_article_marker_def)
qed

lemma example_exam_low:
  "assemble_exam (\<lambda>t. []) [example_article, example_article_marker] example_config [] [] =
     Inr (\<lparr> true_false = [\<lparr> qtype = TrueFalse, question = [20844, 27665, 19981, 24471, 36981, 23432, 27861, 24459, 12290],
                 options = Some [dui, cuo], answer = Str cuo,
                 source = ([115, 46, 100, 111, 99, 120], [31532, 49, 26465]) \<rparr>],
           single = [], multiple = [], fill = [], short = [] \<rparr>, [], [])"
  unfolding assemble_exam_def example_sample_low
  by (simp add: example_counts example_true_false_low generators_on_nothing)

lemma example_exam_high:
  "assemble_exam (\<lambda>t. []) [example_article, example_article_marker] example_config []
       [9007199254740991, 9007199254740991] =
     Inr (\<lparr> true_false = [\<lparr> qtype = TrueFalse, question = blank_marker @ [19981, 24471, 12290],
                 options = Some [dui, cuo], answer = Str cuo,
                 source = ([115, 46, 100, 111, 99, 120], [31532, 51, 26465]) \<rparr>],
           single = [], multiple = [], fill = [], short = [] \<rparr>, [], [])"
  unfolding assemble_exam_def example_sample_high
  by (simp add: example_counts example_true_false_high generators_on_nothing)

section \<open>Normalisation joins the words by single spaces\<close>

lemma ws_words_Nil [simp]: "ws_words [] = []"
  by (simp add: ws_words.simps)

lemma ws_words_space: "isspace c \<Longrightarrow> ws_words (c # cs) = ws_words cs"
  by (simp add: ws_words.simps)

lemma ws_words_single: "\<not> isspace c \<Longrightarrow> ws_words [c] = [[c]]"
  by (simp add: ws_words.simps)

lemma ws_words_word_end:
  "\<not> isspace c \<Longrightarrow> isspace d \<Longrightarrow> ws_words (c # d # r) = [c] # ws_words (d # r)"
  by (simp add: ws_words.simps)

lemma ws_words_word_cont:
  "\<not> isspace c \<Longrightarrow> \<not> isspace d \<Longrightarrow> ws_words (d # r) = w # ws \<Longrightarrow>
   ws_words (c # d # r) = (c # w) # ws"
  by (simp add: ws_words.simps)

lemma ws_words_nonempty: "\<not> isspace d \<Longrightarrow> ws_words (d # r) \<noteq> []"
  by (cases r) (auto simp: ws_words.simps split: list.splits)

lemma ws_words_dropWhile: "ws_words (dropWhile isspace s) = ws_words s"
  by (induction s) (auto simp: ws_words_space)

lemma ws_words_all_space: "\<forall>c \<in> set z. isspace c \<Longrightarrow> ws_words z = []"
  by (induction z) (auto simp: ws_words_space)

lemma ws_words_trailing: "\<forall>c \<in> set z. isspace c \<Longrightarrow> ws_words (p @ z) = ws_words p"
proof (induction p)
  case Nil
  then show ?case by (simp add: ws_words_all_space)
next
  case (Cons c p)
  note ih = Cons.IH[OF Cons.prems]
  show ?case
  proof (cases "isspace c")
    case True
    with ih show ?thesis by (simp add: ws_words_space)
  next
    case False
    show ?thesis
    proof (cases p)
      case Nil
      show ?thesis
      proof (cases z)
        case Nil
        with \<open>p = []\<close> show ?thesis by simp
      next
        case (Cons d z')
        with Cons.prems have d: "isspace d" by simp
        have "ws_words (c # d # z') = [c] # ws_words (d # z')" using False d by (rule ws_words_word_end)
        also have "ws_words (d # z') = []" using Cons.prems Cons by (simp add: ws_words_all_space)
        finally show ?thesis using \<open>p = []\<close> Cons False by (simp add: ws_words_single)
      qed
    next
      case (Cons d p')
      show ?thesis
      proof (cases "isspace d")
        case True
        have "ws_words (c # d # (p' @ z)) = [c] # ws_words (d # (p' @ z))"
          using False True by (rule ws_words_word_end)
        moreover have "ws_words (c # d # p') = [c] # ws_words (d # p')"
          using False True by (rule ws_words_word_end)
        ultimately show ?thesis using ih Cons by simp
      next
        case nd: False
        obtain w ws where w: "ws_words (d # p') = w # ws"
          using ws_words_nonempty[OF nd, of p'] by (cases "ws_words (d # p')") auto
        with ih Cons have w2: "ws_words (d # (p' @ z)) = w # ws" by simp
        from ws_words_word_cont[OF False nd w] ws_words_word_cont[OF False nd w2] Cons
        show ?thesis by simp
      qed
    qed
  qed
qed

lemma ws_sub_Nil: "whitespace_re_sub s = [] \<longleftrightarrow> s = []"
  by (cases s) auto

lemma ws_words_ws_sub: "ws_words (whitespace_re_sub s) = ws_words s"
proof (induction s rule: whitespace_re_sub.induct)
  case 1
  show ?case by simp
next
  case (2 c cs)
  show ?case
  proof (cases "isspace c")
    case True
    with 2 show ?thesis by (simp add: isspace_32 ws_words_space ws_words_dropWhile)
  next
    case False
    with 2 have ih: "ws_words (whitespace_re_sub cs) = ws_words cs" by simp
    show ?thesis
    proof (cases cs)
      case Nil
      with False show ?thesis by simp
    next
      case (Cons d ds)
      show ?thesis
      proof (cases "isspace d")
        case True
        let ?r = "whitespace_re_sub (dropWhile isspace ds)"
        have e: "whitespace_re_sub cs = 32 # ?r" using Cons True by simp
        have "ws_words (c # 32 # ?r) = [c] # ws_words (32 # ?r)"
          using False isspace_32 by (rule ws_words_word_end)
        moreover have "ws_words (c # d # ds) = [c] # ws_words (d # ds)"
          using False True by (rule ws_words_word_end)
        ultimately show ?thesis using False e ih Cons by simp
      next
        case nd: False
        let ?r = "whitespace_re_sub ds"
        have e: "whitespace_re_sub cs = d # ?r" using Cons nd by simp
        obtain w ws where w: "ws_words (d # ds) = w # ws"
          using ws_words_nonempty[OF nd, of ds] by (cases "ws_words (d # ds)") auto
        with ih e Cons have w2: "ws_words (d # ?r) = w # ws" by simp
        from ws_words_word_cont[OF False nd w] ws_words_word_cont[OF False nd w2] False e Cons
        show ?thesis by simp
      qed
    qed
  qed
qed

lemma ws_words_strip: "ws_words (strip s) = ws_words s"
proof -
  let ?d = "dropWhile isspace s"
  have "?d = rev (dropWhile isspace (rev ?d)) @ rev (takeWhile isspace (rev ?d))"
    by (metis rev_append rev_rev_ident takeWhile_dropWhile_id)
  then have d: "?d = strip s @ rev (takeWhile isspace (rev ?d))" by (simp add: strip_def)
  have "\<forall>c \<in> set (rev (takeWhile isspace (rev ?d))). isspace c"
    by (auto dest: set_takeWhileD)
  from ws_words_trailing[OF this, of "strip s"] d have "ws_words ?d = ws_words (strip s)" by simp
  then show ?thesis by (simp add: ws_words_dropWhile)
qed

lemma join_cons_word: "join sep ((c # w) # ws) = c # join sep (w # ws)"
  by (cases ws) auto

lemma join_words_collapsed:
  "collapsed s \<Longrightarrow> s \<noteq> [] \<Longrightarrow> \<not> isspace (hd s) \<Longrightarrow> \<not> isspace (last s) \<Longrightarrow>
   join [32] (ws_words s) = s"
proof (induction s rule: length_induct)
  case (1 s)
  from "1.prems"(2) obtain c cs where s: "s = c # cs" by (cases s) auto
  with "1.prems"(3) have nc: "\<not> isspace c" by simp
  show ?case
  proof (cases cs)
    case Nil
    with s nc show ?thesis by (simp add: ws_words_single)
  next
    case (Cons d rest)
    show ?thesis
    proof (cases "isspace d")
      case True
      from "1.prems"(1) s Cons True have d32: "d = 32" and cr: "collapsed rest"
        and nr: "case rest of [] \<Rightarrow> True | e # _ \<Rightarrow> \<not> isspace e" by simp_all
      have rne: "rest \<noteq> []"
      proof
        assume "rest = []"
        with s Cons have "last s = d" by simp
        with True "1.prems"(4) show False by simp
      qed
      then obtain e es where e: "rest = e # es" by (cases rest) auto
      with nr have hr: "\<not> isspace e" by simp
      have lr: "\<not> isspace (last rest)" using "1.prems"(4) s Cons rne by simp
      have "length rest < length s" using s Cons by simp
      with "1.IH" cr rne hr lr e have ih: "join [32] (ws_words rest) = rest" by auto
      obtain w ws where w: "ws_words rest = w # ws"
        using ws_words_nonempty[OF hr, of es] e by (cases "ws_words rest") auto
      have "ws_words s = [c] # ws_words (d # rest)"
        unfolding s Cons using nc True by (rule ws_words_word_end)
      then have "ws_words s = [c] # w # ws" using True w by (simp add: ws_words_space)
      then have "join [32] (ws_words s) = [c] @ [32] @ join [32] (ws_words rest)" using w by simp
      with ih s Cons d32 show ?thesis by simp
    next
      case False
      from "1.prems"(1) s have cc: "collapsed cs" by simp
      have lc: "\<not> isspace (last cs)" using "1.prems"(4) s Cons by simp
      have "length cs < length s" using s by simp
      with "1.IH" cc Cons False lc have ih: "join [32] (ws_words cs) = cs" by auto
      obtain w ws where w: "ws_words (d # rest) = w # ws"
        using ws_words_nonempty[OF False, of rest] by (cases "ws_words (d # rest)") auto
      have "ws_words s = (c # w) # ws"
        unfolding s Cons using nc False w by (rule ws_words_word_cont)
      then have "join [32] (ws_words s) = c # join [32] (w # ws)" by (simp add: join_cons_word)
      with ih w s Cons show ?thesis by simp
    qed
  qed
qed

lemma normalize_text_refines: "normalize_text t = normalize_spec t"
proof -
  let ?n = "normalize_text t"
  have w: "ws_words ?n = ws_words t"
    by (simp add: normalize_text_strip_sub ws_words_strip ws_words_ws_sub)
  have c: "collapsed ?n"
    unfolding normalize_text_strip_sub using collapsed_ws_sub by (rule collapsed_strip)
  show ?thesis
  proof (cases "?n = []")
    case True
    with w show ?thesis by (simp add: normalize_spec_def)
  next
    case False
    then have "\<not> isspace (hd ?n) \<and> \<not> isspace (last ?n)"
      unfolding normalize_text_strip_sub by (rule strip_ends)
    with join_words_collapsed[OF c False] have "join [32] (ws_words ?n) = ?n" by simp
    with w show ?thesis by (simp add: normalize_spec_def)
  qed
qed

section \<open>The claims\<close>

text \<open>
  C8. \<^verbatim>\<open>normalize_text\<close> is idempotent, and its result is the words of the text (the
  maximal runs of characters that are not whitespace) joined by single ASCII spaces: every
  run of whitespace, the full-width space U+3000 included, has become one space, and the
  ends are trimmed. So the result has no whitespace character other than the ASCII space,
  no two spaces in a row, no whitespace at either end, and the characters that are not
  whitespace are those of the input, in their order.
\<close>

theorem normalize_text_idempotent:
  "normalize_text (normalize_text t) = normalize_text t
   \<and> normalize_text t = normalize_spec t
   \<and> (\<forall>c \<in> set (normalize_text t). isspace c \<longrightarrow> c = 32)
   \<and> \<not> contains [32, 32] (normalize_text t)
   \<and> (normalize_text t \<noteq> [] \<longrightarrow> \<not> isspace (hd (normalize_text t)) \<and> \<not> isspace (last (normalize_text t)))
   \<and> filter (\<lambda>c. \<not> isspace c) (normalize_text t) = filter (\<lambda>c. \<not> isspace c) t"
proof -
  let ?w = "whitespace_re_sub t"
  have cw: "collapsed ?w" by (rule collapsed_ws_sub)
  then have n: "normalize_text t = strip ?w" by (simp add: normalize_text_def nbsp_collapsed)
  have cn: "collapsed (normalize_text t)" using cw n collapsed_strip by simp
  have "normalize_text (normalize_text t) = strip (normalize_text t)"
    using cn by (simp add: normalize_text_def[of "normalize_text t"] nbsp_collapsed ws_sub_collapsed)
  then have 1: "normalize_text (normalize_text t) = normalize_text t" using n strip_strip by simp
  have 2: "\<forall>c \<in> set (normalize_text t). isspace c \<longrightarrow> c = 32" using cn collapsed_spaces by blast
  have 3: "\<not> contains [32, 32] (normalize_text t)" using cn by (rule collapsed_no_double)
  have 4: "normalize_text t \<noteq> [] \<longrightarrow> \<not> isspace (hd (normalize_text t)) \<and> \<not> isspace (last (normalize_text t))"
    using strip_ends[of ?w] n by simp
  have 5: "filter (\<lambda>c. \<not> isspace c) (normalize_text t) = filter (\<lambda>c. \<not> isspace c) t"
    using n by (simp add: filter_strip filter_ws_sub)
  have 0: "normalize_text t = normalize_spec t" by (rule normalize_text_refines)
  from 0 1 2 3 4 5 show ?thesis by blast
qed

theorem normalize_text_idempotent_witness:
  "normalize_text [12288, 97, 9, 10, 98, 160, 32] = [97, 32, 98]
   \<and> normalize_text (normalize_text [12288, 97, 9, 10, 98, 160, 32])
       = normalize_text [12288, 97, 9, 10, 98, 160, 32]
   \<and> normalize_spec [12288, 97, 9, 10, 98, 160, 32] = [97, 32, 98]
   \<and> 32 \<in> set (normalize_text [12288, 97, 9, 10, 98, 160, 32]) \<and> isspace 32
   \<and> normalize_text [12288, 97, 9, 10, 98, 160, 32] \<noteq> []
   \<and> \<not> isspace (hd (normalize_text [12288, 97, 9, 10, 98, 160, 32]))
   \<and> \<not> isspace (last (normalize_text [12288, 97, 9, 10, 98, 160, 32]))"
proof -
  have e: "normalize_text [12288, 97, 9, 10, 98, 160, 32] = [97, 32, 98]"
    by (simp add: normalize_text_def strip_def replace_nbsp_def isspace_def)
  note th = normalize_text_idempotent [of "[12288, 97, 9, 10, 98, 160, 32]"]
  from th have i: "normalize_text (normalize_text [12288, 97, 9, 10, 98, 160, 32])
      = normalize_text [12288, 97, 9, 10, 98, 160, 32]" by (rule conjunct1)
  from th have "normalize_text [12288, 97, 9, 10, 98, 160, 32]
      = normalize_spec [12288, 97, 9, 10, 98, 160, 32]" by blast
  then have s: "normalize_spec [12288, 97, 9, 10, 98, 160, 32] = [97, 32, 98]"
    using e by (simp only:)
  have r: "32 \<in> set (normalize_text [12288, 97, 9, 10, 98, 160, 32]) \<and> isspace 32
   \<and> normalize_text [12288, 97, 9, 10, 98, 160, 32] \<noteq> []
   \<and> \<not> isspace (hd (normalize_text [12288, 97, 9, 10, 98, 160, 32]))
   \<and> \<not> isspace (last (normalize_text [12288, 97, 9, 10, 98, 160, 32]))"
    unfolding e by (simp add: isspace_def)
  from e i s r show ?thesis by (intro conjI) blast+
qed

text \<open>
  C7. \<^verbatim>\<open>negate_statement\<close> applies its transformations in strict precedence. The first
  entry of the table \<open>swaps\<close> whose word occurs in the sentence decides: the first occurrence
  of that word, and nothing else, is replaced by its partner. Only when no word of the table
  occurs and the sentence has a decimal digit is the first run of digits replaced by its
  successor; only when neither applies is the disclaimer appended. In particular a sentence
  containing U+5E94 U+5F53 gets U+4E0D U+5F97 at the first occurrence and keeps every digit.
\<close>

theorem negate_statement_precedence:
  "(\<forall>i < length swaps.
      contains (fst (swaps ! i)) s \<and> (\<forall>j < i. \<not> contains (fst (swaps ! j)) s) \<longrightarrow>
      (\<exists>pre post. s = pre @ fst (swaps ! i) @ post
         \<and> \<not> contains (fst (swaps ! i)) (pre @ butlast (fst (swaps ! i)))
         \<and> negate_statement s = pre @ snd (swaps ! i) @ post))
   \<and> ((\<forall>i < length swaps. \<not> contains (fst (swaps ! i)) s) \<and> (\<exists>c \<in> set s. isdecimal c) \<longrightarrow>
        negate_statement s =
          takeWhile (\<lambda>c. \<not> isdecimal c) s
          @ str_nat (int_of_digits (takeWhile isdecimal (dropWhile (\<lambda>c. \<not> isdecimal c) s)) + 1)
          @ dropWhile isdecimal (dropWhile (\<lambda>c. \<not> isdecimal c) s))
   \<and> ((\<forall>i < length swaps. \<not> contains (fst (swaps ! i)) s) \<and> (\<forall>c \<in> set s. \<not> isdecimal c) \<longrightarrow>
        negate_statement s = s @ disclaimer)
   \<and> (contains [24212, 24403] s \<longrightarrow>
        (\<exists>pre post. s = pre @ [24212, 24403] @ post
           \<and> \<not> contains [24212, 24403] (pre @ [24212])
           \<and> negate_statement s = pre @ [19981, 24471] @ post)
        \<and> filter isdecimal (negate_statement s) = filter isdecimal s)"
proof -
  have A: "\<exists>pre post. s = pre @ fst (swaps ! i) @ post
         \<and> \<not> contains (fst (swaps ! i)) (pre @ butlast (fst (swaps ! i)))
         \<and> negate_statement s = pre @ snd (swaps ! i) @ post"
    if i: "i < length swaps" and c: "contains (fst (swaps ! i)) s"
      and f: "\<forall>j < i. \<not> contains (fst (swaps ! j)) s" for i
  proof -
    have "(fst (swaps ! i), snd (swaps ! i)) \<in> set swaps" using i by simp
    then have ne: "fst (swaps ! i) \<noteq> []" using swaps_change by blast
    have "try_swaps swaps s = Some (replace1 (fst (swaps ! i)) (snd (swaps ! i)) s)"
      using i c f by (rule try_swaps_first)
    then have "negate_statement s = replace1 (fst (swaps ! i)) (snd (swaps ! i)) s"
      by (rule negate_statement_swap)
    with replace1_decomp[OF c ne, of "snd (swaps ! i)"] show ?thesis by auto
  qed
  have B: "negate_statement s =
          takeWhile (\<lambda>c. \<not> isdecimal c) s
          @ str_nat (int_of_digits (takeWhile isdecimal (dropWhile (\<lambda>c. \<not> isdecimal c) s)) + 1)
          @ dropWhile isdecimal (dropWhile (\<lambda>c. \<not> isdecimal c) s)"
    if "\<forall>i < length swaps. \<not> contains (fst (swaps ! i)) s" and "\<exists>c \<in> set s. isdecimal c"
    using that try_swaps_None[of swaps s] negate_statement_numeric[of s] by blast
  have C: "negate_statement s = s @ disclaimer"
    if "\<forall>i < length swaps. \<not> contains (fst (swaps ! i)) s" and "\<forall>c \<in> set s. \<not> isdecimal c"
    using that try_swaps_None[of swaps s] negate_statement_suffix[of s] by blast
  have D: "(\<exists>pre post. s = pre @ [24212, 24403] @ post
           \<and> \<not> contains [24212, 24403] (pre @ [24212])
           \<and> negate_statement s = pre @ [19981, 24471] @ post)
        \<and> filter isdecimal (negate_statement s) = filter isdecimal s"
    if c: "contains [24212, 24403] s"
  proof -
    have l: "0 < length swaps" and f: "fst (swaps ! 0) = [24212, 24403]"
      and g: "snd (swaps ! 0) = [19981, 24471]" by (simp_all add: swaps_def)
    from A[of 0] l f g c obtain pre post where
      s: "s = pre @ [24212, 24403] @ post" and n: "\<not> contains [24212, 24403] (pre @ [24212])"
      and r: "negate_statement s = pre @ [19981, 24471] @ post" by auto
    have "([24212, 24403], [19981, 24471]) \<in> set swaps" by (simp add: swaps_def)
    then have "filter isdecimal [24212, 24403] = [] \<and> filter isdecimal [19981, 24471] = []"
      by (rule swaps_not_decimal)
    then have "filter isdecimal (pre @ [19981, 24471] @ post) = filter isdecimal (pre @ [24212, 24403] @ post)"
      by (simp only: filter_append)
    with s n r show ?thesis by metis
  qed
  from A B C D show ?thesis by blast
qed

theorem negate_statement_precedence_witness:
  "contains ([24212, 24403] :: ustr) [24212, 24403, 22312, 51, 48, 26085, 20869]
   \<and> isdecimal 51 \<and> isdecimal 48
   \<and> negate_statement [24212, 24403, 22312, 51, 48, 26085, 20869]
         = [19981, 24471, 22312, 51, 48, 26085, 20869]
   \<and> filter isdecimal (negate_statement [24212, 24403, 22312, 51, 48, 26085, 20869]) = [51, 48]
   \<and> length swaps = 5
   \<and> \<not> contains (fst (swaps ! 0)) [22312, 51, 48, 26085, 20869]
   \<and> \<not> contains (fst (swaps ! 1)) [22312, 51, 48, 26085, 20869]
   \<and> \<not> contains (fst (swaps ! 2)) [22312, 51, 48, 26085, 20869]
   \<and> \<not> contains (fst (swaps ! 3)) [22312, 51, 48, 26085, 20869]
   \<and> \<not> contains (fst (swaps ! 4)) [22312, 51, 48, 26085, 20869]
   \<and> negate_statement [22312, 51, 48, 26085, 20869] = [22312, 51, 49, 26085, 20869]
   \<and> \<not> contains (fst (swaps ! 0)) [22909, 30340]
   \<and> \<not> contains (fst (swaps ! 1)) [22909, 30340]
   \<and> \<not> contains (fst (swaps ! 2)) [22909, 30340]
   \<and> \<not> contains (fst (swaps ! 3)) [22909, 30340]
   \<and> \<not> contains (fst (swaps ! 4)) [22909, 30340]
   \<and> \<not> isdecimal 22909 \<and> \<not> isdecimal 30340
   \<and> negate_statement [22909, 30340] = [22909, 30340] @ disclaimer"
proof -
  let ?s1 = "[24212, 24403, 22312, 51, 48, 26085, 20869] :: ustr"
  let ?s2 = "[22312, 51, 48, 26085, 20869] :: ustr"
  let ?s3 = "[22909, 30340] :: ustr"
  have d51: "isdecimal 51" and d48: "isdecimal 48"
    by (simp_all add: isdecimal_def digit_value_def digit_zeros_def)
  have c1: "contains [24212, 24403] ?s1" by simp
  have l: "length swaps = 5" by (simp add: swaps_def)
  have t2: "try_swaps swaps ?s2 = None" and t3: "try_swaps swaps ?s3 = None"
    by (simp_all add: swaps_def)
  have n2: "\<forall>i < length swaps. \<not> contains (fst (swaps ! i)) ?s2"
    using t2 by (simp only: try_swaps_None)
  have n3: "\<forall>i < length swaps. \<not> contains (fst (swaps ! i)) ?s3"
    using t3 by (simp only: try_swaps_None)
  have x3: "\<forall>c \<in> set ?s3. \<not> isdecimal c" by (simp add: cjk_not_decimal)
  have x2: "\<not> isdecimal 22312" "\<not> isdecimal 26085" "\<not> isdecimal 20869"
      "\<not> isdecimal 24212" "\<not> isdecimal 24403"
    by (simp_all add: cjk_not_decimal)
  have e1: "negate_statement ?s1 = [19981, 24471, 22312, 51, 48, 26085, 20869]"
    by (simp add: negate_statement_def swaps_def)
  have "filter isdecimal (negate_statement ?s1) = filter isdecimal ?s1"
    using negate_statement_precedence [of ?s1] c1 by blast
  then have f1: "filter isdecimal (negate_statement ?s1) = [51, 48]"
    using d51 d48 x2 by simp
  have "negate_statement ?s2 =
          takeWhile (\<lambda>c. \<not> isdecimal c) ?s2
          @ str_nat (int_of_digits (takeWhile isdecimal (dropWhile (\<lambda>c. \<not> isdecimal c) ?s2)) + 1)
          @ dropWhile isdecimal (dropWhile (\<lambda>c. \<not> isdecimal c) ?s2)"
    using negate_statement_precedence [of ?s2] n2 d51 by simp
  moreover have "int_of_digits [51, 48] = 30"
    by (simp add: int_of_digits_def digit_value_def digit_zeros_def)
  moreover have "str_nat 31 = [51, 49]"
    by (simp add: str_nat.simps [of 31] str_nat.simps [of 3])
  ultimately have e2: "negate_statement ?s2 = [22312, 51, 49, 26085, 20869]"
    using d51 d48 x2 by simp
  have e3: "negate_statement ?s3 = ?s3 @ disclaimer"
    using negate_statement_precedence [of ?s3] n3 x3 by blast
  have k2: "\<not> contains (fst (swaps ! i)) ?s2" if "i < 5" for i using n2 l that by simp
  have k3: "\<not> contains (fst (swaps ! i)) ?s3" if "i < 5" for i using n3 l that by simp
  from c1 d51 d48 e1 f1 l e2 e3 x3 k2 [of 0] k2 [of 1] k2 [of 2] k2 [of 3] k2 [of 4]
    k3 [of 0] k3 [of 1] k3 [of 2] k3 [of 3] k3 [of 4]
  show ?thesis by simp
qed

text \<open>
  C10. For every string \<open>s\<close>, \<^verbatim>\<open>negate_statement(s)\<close> differs from \<open>s\<close>: a swap replaces a word
  by a different one, the numeric branch writes the successor of the number the run denotes,
  and the disclaimer is not empty.
\<close>

theorem negate_statement_differs: "negate_statement s \<noteq> s"
proof (cases "try_swaps swaps s")
  case None
  show ?thesis
  proof (cases "\<exists>c \<in> set s. isdecimal c")
    case True
    define pre where "pre = takeWhile (\<lambda>c. \<not> isdecimal c) s"
    define run where "run = takeWhile isdecimal (dropWhile (\<lambda>c. \<not> isdecimal c) s)"
    define post where "post = dropWhile isdecimal (dropWhile (\<lambda>c. \<not> isdecimal c) s)"
    have n: "negate_statement s = pre @ str_nat (int_of_digits run + 1) @ post"
      unfolding pre_def run_def post_def using None True by (rule negate_statement_numeric)
    have s: "s = pre @ run @ post" by (simp add: pre_def run_def post_def)
    show ?thesis
    proof
      assume "negate_statement s = s"
      with n s have "pre @ str_nat (int_of_digits run + 1) @ post = pre @ run @ post" by simp
      then have "str_nat (int_of_digits run + 1) = run" by simp
      then show False using str_nat_succ_differs by blast
    qed
  next
    case False
    then have "negate_statement s = s @ disclaimer" using None negate_statement_suffix by blast
    then show ?thesis using disclaimer_nonempty by simp
  qed
next
  case (Some t)
  then obtain a b where ab: "(a, b) \<in> set swaps" and c: "contains a s" and t: "t = replace1 a b s"
    using try_swaps_Some by blast
  from swaps_change[OF ab] have ne: "a \<noteq> b" "a \<noteq> []" by simp_all
  obtain pre post where s: "s = pre @ a @ post" and r: "replace1 a b s = pre @ b @ post"
    using replace1_decomp[OF c ne(2), of b] by blast
  have "negate_statement s = pre @ b @ post" using Some t r by (simp add: negate_statement_swap)
  moreover have "pre @ b @ post \<noteq> pre @ a @ post" using ne(1) by simp
  ultimately show ?thesis using s by metis
qed

text \<open>
  C9. Within one run of \<^verbatim>\<open>make_true_false\<close> the questions come from pairwise different
  source sentences (the sentence before negation), each of at least 6 characters and a
  sentence of one of the articles; the run returns at most \<open>count\<close> questions, and when it
  returns fewer, every sentence of at least 6 characters of every article has been used: the
  candidates are exhausted and the shorter list is the result, not an error.
\<close>

theorem make_true_false_dedup:
  "\<exists>bases. list_all2 tf_derived bases (fst (make_true_false nouns_of arts cnt rng))
     \<and> distinct bases
     \<and> (\<forall>b \<in> set bases. 6 \<le> length b
           \<and> (\<exists>art \<in> set arts. b \<in> set (sentences (extract_entities nouns_of (body art)))))
     \<and> int (length (fst (make_true_false nouns_of arts cnt rng))) \<le> max cnt 0
     \<and> (int (length (fst (make_true_false nouns_of arts cnt rng))) < cnt \<longrightarrow>
          (\<forall>art \<in> set arts. \<forall>s \<in> set (sentences (extract_entities nouns_of (body art))).
             6 \<le> length s \<longrightarrow> s \<in> set bases))"
proof -
  obtain results seen rng' where
    r: "true_false_articles nouns_of cnt arts ([], {}, rng) = (results, seen, rng')"
    by (cases "true_false_articles nouns_of cnt arts ([], {}, rng)") auto
  then have f: "fst (make_true_false nouns_of arts cnt rng) = results"
    by (simp add: make_true_false_def)
  have "\<exists>bs'. list_all2 tf_derived bs' results \<and> distinct bs' \<and> set bs' = seen
           \<and> (\<forall>b \<in> set bs'. 6 \<le> length b)
           \<and> int (length results) \<le> max cnt 0
           \<and> {} \<subseteq> seen
           \<and> seen \<subseteq> {} \<union> (\<Union>art \<in> set arts. set (sentences (extract_entities nouns_of (body art))))
           \<and> (int (length results) < cnt \<longrightarrow>
                (\<forall>art \<in> set arts. \<forall>s \<in> set (sentences (extract_entities nouns_of (body art))).
                   6 \<le> length s \<longrightarrow> s \<in> seen))"
    by (rule true_false_articles_inv[OF _ _ _ _ _ r, of "[]"]) simp_all
  then obtain bs where
    "list_all2 tf_derived bs results" "distinct bs" "set bs = seen"
    "\<forall>b \<in> set bs. 6 \<le> length b" "int (length results) \<le> max cnt 0"
    "seen \<subseteq> {} \<union> (\<Union>art \<in> set arts. set (sentences (extract_entities nouns_of (body art))))"
    "int (length results) < cnt \<longrightarrow>
                (\<forall>art \<in> set arts. \<forall>s \<in> set (sentences (extract_entities nouns_of (body art))).
                   6 \<le> length s \<longrightarrow> s \<in> seen)"
    by blast
  then show ?thesis unfolding f by (intro exI[of _ bs]) blast
qed

theorem make_true_false_dedup_witness:
  "fst (make_true_false (\<lambda>t. []) [example_article, example_article] 5 [0, 4503599627370496])
     = [\<lparr> qtype = TrueFalse, question = [20844, 27665, 19981, 24471, 36981, 23432, 27861, 24459, 12290],
           options = Some [dui, cuo], answer = Str cuo,
           source = ([115, 46, 100, 111, 99, 120], [31532, 49, 26465]) \<rparr>,
        \<lparr> qtype = TrueFalse, question = [31105, 27490, 28389, 29992, 26435, 21033, 12290],
           options = Some [dui, cuo], answer = Str dui,
           source = ([115, 46, 100, 111, 99, 120], [31532, 49, 26465]) \<rparr>]
   \<and> int (length (fst (make_true_false (\<lambda>t. []) [example_article, example_article] 5
                         [0, 4503599627370496]))) < 5
   \<and> (\<exists>bases. list_all2 tf_derived bases
                 (fst (make_true_false (\<lambda>t. []) [example_article, example_article] 5
                         [0, 4503599627370496]))
          \<and> distinct bases
          \<and> [20844, 27665, 24212, 24403, 36981, 23432, 27861, 24459, 12290] \<in> set bases
          \<and> [31105, 27490, 28389, 29992, 26435, 21033, 12290] \<in> set bases
          \<and> [22909, 12290] \<notin> set bases)"
proof -
  let ?r = "fst (make_true_false (\<lambda>t. []) [example_article, example_article] 5 [0, 4503599627370496])"
  have e: "?r = [\<lparr> qtype = TrueFalse, question = [20844, 27665, 19981, 24471, 36981, 23432, 27861, 24459, 12290],
           options = Some [dui, cuo], answer = Str cuo,
           source = ([115, 46, 100, 111, 99, 120], [31532, 49, 26465]) \<rparr>,
        \<lparr> qtype = TrueFalse, question = [31105, 27490, 28389, 29992, 26435, 21033, 12290],
           options = Some [dui, cuo], answer = Str dui,
           source = ([115, 46, 100, 111, 99, 120], [31532, 49, 26465]) \<rparr>]"
    unfolding make_true_false_def
    by (simp add: example_article_sentences example_negated rng_random_def next_raw_def)
       (simp add: example_article_def)
  then have l: "int (length ?r) < 5" by simp
  from make_true_false_dedup [of "\<lambda>t. []" "[example_article, example_article]" 5 "[0, 4503599627370496]"]
  obtain bases where b: "list_all2 tf_derived bases ?r" "distinct bases"
    "\<forall>b \<in> set bases. 6 \<le> length b"
    "int (length ?r) < 5 \<longrightarrow>
       (\<forall>art \<in> set [example_article, example_article].
          \<forall>s \<in> set (sentences (extract_entities (\<lambda>t. []) (body art))). 6 \<le> length s \<longrightarrow> s \<in> set bases)"
    by blast
  from b(4) l have "\<forall>s \<in> set (sentences (extract_entities (\<lambda>t. []) (body example_article))).
      6 \<le> length s \<longrightarrow> s \<in> set bases" by simp
  then have in1: "[20844, 27665, 24212, 24403, 36981, 23432, 27861, 24459, 12290] \<in> set bases"
    and in2: "[31105, 27490, 28389, 29992, 26435, 21033, 12290] \<in> set bases"
    by (simp_all add: example_article_sentences)
  have out: "[22909, 12290] \<notin> set bases" using b(3) by fastforce
  from e l b(1,2) in1 in2 out show ?thesis by blast
qed

text \<open>
  C1. \<^verbatim>\<open>assemble_exam\<close> on an empty list of articles. The first call of \<^verbatim>\<open>weighted_sample\<close>
  hands \<^verbatim>\<open>random.choices\<close> an empty population with an empty list of weights, and
  \<^verbatim>\<open>random.choices\<close> raises IndexError at \<^verbatim>\<open>cum_weights[-1]\<close>, whatever \<open>k\<close> is: the call
  raises for every configuration and every state of the random sources, where the claim
  promises an exam with five empty lists. The five generators themselves return an empty
  list on an empty list of articles.
\<close>

theorem assemble_exam_empty_raises:
  "weighted_sample [] w k g = Inl IndexError
   \<and> assemble_exam nouns_of [] cfg rng g = Inl IndexError
   \<and> make_true_false nouns_of [] cnt rng = ([], rng)
   \<and> make_single_choice nouns_of [] cnt rng = Inr ([], rng)
   \<and> make_multiple_choice nouns_of [] cnt rng = Inr ([], rng)
   \<and> make_fill_blank nouns_of [] cnt rng = Inr ([], rng)
   \<and> make_short_answers [] cnt = []"
  by (simp add: assemble_exam_def sample_articles_empty weighted_sample_empty
        make_true_false_def make_single_choice_def make_multiple_choice_def
        make_fill_blank_def make_short_answers_def)




text \<open>
  C4, as the code has it. \<^verbatim>\<open>make_single_choice\<close> never raises, and every question it returns
  has the correct string built from the chosen keyword (a keyword of one of the articles)
  and \<open>min(3, len(pool))\<close> distractors, where \<open>pool\<close> is the distractor pool of the call: between
  2 and 4 options, pairwise different, and four exactly when the pool has at least three
  entries. Exactly one option equals the correct string; the answer is the one-character
  string of code point \<open>65 + i\<close>, where \<open>i\<close> is the position of that option after the shuffle
  (so A, B, C or D); every other option is an entry of the pool, and none of them contains
  the keyword when the pool has three entries without it.
  As stated, with four options for every question, the claim fails on an article whose pool
  has a single entry: the counterexample below has two options.
\<close>

theorem make_single_choice_answer:
  "\<exists>results rng'. make_single_choice nouns_of arts cnt rng = Inr (results, rng')
     \<and> (\<forall>q \<in> set results. \<exists>key opts i.
           (\<exists>art \<in> set arts. key \<in> set (pick_keywords (extract_entities nouns_of (body art)) 5))
         \<and> options q = Some opts \<and> answer q = Str [65 + i]
         \<and> i < length opts \<and> opts ! i = single_correct key
         \<and> length (filter (\<lambda>opt. opt = single_correct key) opts) = 1
         \<and> distinct opts
         \<and> length opts = 1 + min 3 (length (build_distractor_pool nouns_of arts))
         \<and> 2 \<le> length opts \<and> length opts \<le> 4
         \<and> set opts \<subseteq> insert (single_correct key) (set (build_distractor_pool nouns_of arts))
         \<and> (3 \<le> length (filter (\<lambda>p. \<not> contains key p) (build_distractor_pool nouns_of arts)) \<longrightarrow>
              (\<forall>opt \<in> set opts. opt \<noteq> single_correct key \<longrightarrow> \<not> contains key opt)))"
proof -
  let ?pool = "build_distractor_pool nouns_of arts"
  let ?keys = "\<Union>art \<in> set arts. set (pick_keywords (extract_entities nouns_of (body art)) 5)"
  have step: "\<exists>res r'. single_choice_article nouns_of ?pool art r = Inr (res, r')
               \<and> (\<forall>q. res = Some q \<longrightarrow> single_valid ?pool ?keys q)"
    if "art \<in> set arts" for art r
  proof (rule single_choice_article_result)
    show "\<forall>p \<in> set ?pool. \<exists>kw. p = distractor_of kw" using pool_entries by blast
    show "distinct ?pool" by (rule distinct_pool)
    show "pick_keywords (extract_entities nouns_of (body art)) 5 \<noteq> [] \<longrightarrow> ?pool \<noteq> []"
      using pool_nonempty[OF that] by blast
    show "set (pick_keywords (extract_entities nouns_of (body art)) 5) \<subseteq> ?keys"
      using that by blast
  qed
  have "\<exists>results' seen' rng'.
           single_choice_loop nouns_of ?pool cnt arts ([], {}, rng) = Inr (results', seen', rng')
           \<and> (\<forall>q \<in> set results'. single_valid ?pool ?keys q)"
    by (rule single_choice_loop_results) (use step in simp_all)
  then obtain results seen' rng' where
    l: "single_choice_loop nouns_of ?pool cnt arts ([], {}, rng) = Inr (results, seen', rng')"
    and v: "\<forall>q \<in> set results. single_valid ?pool ?keys q" by blast
  have m: "make_single_choice nouns_of arts cnt rng = Inr (results, rng')"
    using l by (simp add: make_single_choice_def)
  have "\<exists>key opts i.
           (\<exists>art \<in> set arts. key \<in> set (pick_keywords (extract_entities nouns_of (body art)) 5))
         \<and> options q = Some opts \<and> answer q = Str [65 + i]
         \<and> i < length opts \<and> opts ! i = single_correct key
         \<and> length (filter (\<lambda>opt. opt = single_correct key) opts) = 1
         \<and> distinct opts
         \<and> length opts = 1 + min 3 (length ?pool)
         \<and> 2 \<le> length opts \<and> length opts \<le> 4
         \<and> set opts \<subseteq> insert (single_correct key) (set ?pool)
         \<and> (3 \<le> length (filter (\<lambda>p. \<not> contains key p) ?pool) \<longrightarrow>
              (\<forall>opt \<in> set opts. opt \<noteq> single_correct key \<longrightarrow> \<not> contains key opt))"
    if "q \<in> set results" for q
  proof -
    from v that have "single_valid ?pool ?keys q" by blast
    then obtain key opts i where k: "key \<in> ?keys" and r: "options q = Some opts"
      "answer q = Str [65 + i]"
      "i < length opts" "opts ! i = single_correct key"
      "length (filter (\<lambda>opt. opt = single_correct key) opts) = 1"
      "distinct opts"
      "length opts = 1 + min 3 (length ?pool)"
      "2 \<le> length opts" "length opts \<le> 4"
      "set opts \<subseteq> insert (single_correct key) (set ?pool)"
      "3 \<le> length (filter (\<lambda>p. \<not> contains key p) ?pool) \<longrightarrow>
              (\<forall>opt \<in> set opts. opt \<noteq> single_correct key \<longrightarrow> \<not> contains key opt)"
      unfolding single_valid_def by blast
    from k have k': "\<exists>art \<in> set arts. key \<in> set (pick_keywords (extract_entities nouns_of (body art)) 5)"
      by simp
    show ?thesis
      apply (rule exI[of _ key], rule exI[of _ opts], rule exI[of _ i])
      apply (intro conjI)
      by (rule k' r)+
  qed
  with m show ?thesis by blast
qed

theorem make_single_choice_four_options_counterexample:
  "make_single_choice (\<lambda>t. []) [example_article_one_term] 1 [] =
     Inr ([\<lparr> qtype = Single,
              question = single_qtext [31532, 50, 26465]
                           [20844, 27665, 24212, 24403, 36981, 23432, 27861, 24459, 12290],
              options = Some [distractor_of [24212, 24403], single_correct [24212, 24403]],
              answer = Str [66],
              source = ([115, 46, 100, 111, 99, 120], [31532, 50, 26465]) \<rparr>], [])
   \<and> length [distractor_of [24212, 24403], single_correct [24212, 24403]] \<noteq> 4"
  using example_single_one_term by (simp add: letter_def)

theorem make_single_choice_answer_witness:
  "make_single_choice (\<lambda>t. []) [example_article] 1 [] =
     Inr ([\<lparr> qtype = Single,
              question = single_qtext [31532, 49, 26465]
                           [20844, 27665, 24212, 24403, 36981, 23432, 27861, 24459, 12290],
              options = Some [distractor_of [24212, 24403], distractor_of [31105, 27490],
                              single_correct [24212, 24403]],
              answer = Str [67],
              source = ([115, 46, 100, 111, 99, 120], [31532, 49, 26465]) \<rparr>], [])
   \<and> (\<exists>key i.
         key \<in> set (pick_keywords (extract_entities (\<lambda>t. []) (body example_article)) 5)
       \<and> ([67] :: ustr) = [65 + i] \<and> i < 3
       \<and> [distractor_of [24212, 24403], distractor_of [31105, 27490],
                single_correct [24212, 24403]] ! i = single_correct key
       \<and> length (filter (\<lambda>opt. opt = single_correct key)
             [distractor_of [24212, 24403], distractor_of [31105, 27490],
                single_correct [24212, 24403]]) = 1)
   \<and> distinct [distractor_of [24212, 24403], distractor_of [31105, 27490],
                single_correct [24212, 24403]]
   \<and> length [distractor_of [24212, 24403], distractor_of [31105, 27490],
                single_correct [24212, 24403]]
       = 1 + min 3 (length (build_distractor_pool (\<lambda>t. []) [example_article]))"
proof -
  let ?q = "\<lparr> qtype = Single,
              question = single_qtext [31532, 49, 26465]
                           [20844, 27665, 24212, 24403, 36981, 23432, 27861, 24459, 12290],
              options = Some [distractor_of [24212, 24403], distractor_of [31105, 27490],
                              single_correct [24212, 24403]],
              answer = Str [67],
              source = ([115, 46, 100, 111, 99, 120], [31532, 49, 26465]) \<rparr>"
  let ?opts = "[distractor_of [24212, 24403], distractor_of [31105, 27490],
                single_correct [24212, 24403]]"
  have ex: "make_single_choice (\<lambda>t. []) [example_article] 1 [] = Inr ([?q], [])"
    using example_single by (simp add: letter_def)
  from make_single_choice_answer [of "\<lambda>t. []" "[example_article]" 1 "[]"]
  obtain results r' where
    m: "make_single_choice (\<lambda>t. []) [example_article] 1 [] = Inr (results, r')" and
    a: "\<forall>q \<in> set results. \<exists>key opts i.
           (\<exists>art \<in> set [example_article].
               key \<in> set (pick_keywords (extract_entities (\<lambda>t. []) (body art)) 5))
         \<and> options q = Some opts \<and> answer q = Str [65 + i]
         \<and> i < length opts \<and> opts ! i = single_correct key
         \<and> length (filter (\<lambda>opt. opt = single_correct key) opts) = 1
         \<and> distinct opts
         \<and> length opts = 1 + min 3 (length (build_distractor_pool (\<lambda>t. []) [example_article]))
         \<and> 2 \<le> length opts \<and> length opts \<le> 4
         \<and> set opts \<subseteq> insert (single_correct key)
               (set (build_distractor_pool (\<lambda>t. []) [example_article]))
         \<and> (3 \<le> length (filter (\<lambda>p. \<not> contains key p)
                   (build_distractor_pool (\<lambda>t. []) [example_article])) \<longrightarrow>
              (\<forall>opt \<in> set opts. opt \<noteq> single_correct key \<longrightarrow> \<not> contains key opt))"
    by blast
  have "results = [?q]" using m ex by simp
  then have "?q \<in> set results" by simp
  from a [rule_format, OF this] obtain key opts i where
    k1: "\<exists>art \<in> set [example_article].
               key \<in> set (pick_keywords (extract_entities (\<lambda>t. []) (body art)) 5)"
    and k2: "options ?q = Some opts" and k3: "answer ?q = Str [65 + i]"
    and k4: "i < length opts" and k5: "opts ! i = single_correct key"
    and k6: "length (filter (\<lambda>opt. opt = single_correct key) opts) = 1"
    and k7: "distinct opts"
    and k8: "length opts = 1 + min 3 (length (build_distractor_pool (\<lambda>t. []) [example_article]))"
    by blast
  from k2 have o: "opts = ?opts" by simp
  from k1 have key: "key \<in> set (pick_keywords (extract_entities (\<lambda>t. []) (body example_article)) 5)"
    by simp
  from k3 have l: "([67] :: ustr) = [65 + i]" by simp
  from k4 o have i3: "i < 3" by simp
  have e: "\<exists>key i.
         key \<in> set (pick_keywords (extract_entities (\<lambda>t. []) (body example_article)) 5)
       \<and> ([67] :: ustr) = [65 + i] \<and> i < 3
       \<and> ?opts ! i = single_correct key
       \<and> length (filter (\<lambda>opt. opt = single_correct key) ?opts) = 1"
    apply (rule exI[of _ key], rule exI[of _ i])
    apply (intro conjI)
    by (rule key l i3 k5[unfolded o] k6[unfolded o])+
  show ?thesis
    by (intro conjI) (rule ex e k7[unfolded o] k8[unfolded o])+
qed

text \<open>
  C5. \<^verbatim>\<open>make_multiple_choice\<close> never raises, and for every question it returns: the options
  are a rearrangement of the correct strings of 2 to 4 distinct sampled keywords and of the
  distractors, which come from the pool, are never a correct string, and of which there is
  always at least one (\<open>min(5 - c, len(pool))\<close> of them for \<open>c\<close> keywords); the options are
  pairwise different and at most five; the answer lists, in increasing order of position,
  the one-character strings of code point \<open>65 + i\<close> (A for position 0, B for 1, and so on)
  of exactly the positions \<open>i\<close> whose option is one of the correct strings (membership after
  the shuffle): the letter of a position is in the answer exactly when its option is a
  correct string; there are as many such positions as sampled keywords, so the answer is
  not empty, and fewer than there are options, so it is a strict subset of the positions.
\<close>

theorem make_multiple_choice_answer:
  "\<exists>results rng'. make_multiple_choice nouns_of arts cnt rng = Inr (results, rng')
     \<and> (\<forall>q \<in> set results. \<exists>chosen ds opts.
           set chosen \<subseteq> (\<Union>art \<in> set arts. set (pick_keywords (extract_entities nouns_of (body art)) 6))
         \<and> distinct chosen \<and> 2 \<le> length chosen \<and> length chosen \<le> 4
         \<and> set ds \<subseteq> set (build_distractor_pool nouns_of arts) \<and> ds \<noteq> []
         \<and> (\<forall>d \<in> set ds. d \<notin> set (map multiple_correct chosen))
         \<and> options q = Some opts
         \<and> mset opts = mset (map multiple_correct chosen @ ds)
         \<and> answer q = Letters (map (\<lambda>i. [65 + i])
              (filter (\<lambda>i. opts ! i \<in> set (map multiple_correct chosen)) [0..<length opts]))
         \<and> length (filter (\<lambda>i. opts ! i \<in> set (map multiple_correct chosen)) [0..<length opts])
             = length chosen
         \<and> length chosen < length opts
         \<and> distinct opts \<and> length opts \<le> 5
         \<and> length ds = min (5 - length chosen) (length (build_distractor_pool nouns_of arts))
         \<and> (\<exists>ls. answer q = Letters ls \<and> length ls = length chosen
               \<and> (\<forall>i < length opts.
                     ([65 + i] \<in> set ls) = (opts ! i \<in> set (map multiple_correct chosen)))))"
proof -
  let ?pool = "build_distractor_pool nouns_of arts"
  let ?keys = "\<Union>art \<in> set arts. set (pick_keywords (extract_entities nouns_of (body art)) 6)"
  have pe: "\<forall>p \<in> set ?pool. \<exists>kw. p = distractor_of kw" using pool_entries by blast
  have step: "\<exists>res r'. multiple_choice_article nouns_of ?pool art r = Inr (res, r')
               \<and> (\<forall>q. res = Some q \<longrightarrow> multiple_valid ?pool ?keys q)"
    if "art \<in> set arts" for art r
  proof (rule multiple_choice_article_result)
    show "\<forall>p \<in> set ?pool. \<exists>kw. p = distractor_of kw" by (rule pe)
    show "distinct ?pool" by (rule distinct_pool)
    show "pick_keywords (extract_entities nouns_of (body art)) 6 \<noteq> [] \<longrightarrow> ?pool \<noteq> []"
      using pool_nonempty[OF that] by blast
    show "set (pick_keywords (extract_entities nouns_of (body art)) 6) \<subseteq> ?keys"
      using that by blast
  qed
  have "\<exists>results' rng'.
           multiple_choice_loop nouns_of ?pool cnt arts ([], rng) = Inr (results', rng')
           \<and> (\<forall>q \<in> set results'. multiple_valid ?pool ?keys q)"
    by (rule multiple_choice_loop_results) (use step in simp_all)
  then obtain results rng' where
    l: "multiple_choice_loop nouns_of ?pool cnt arts ([], rng) = Inr (results, rng')"
    and v: "\<forall>q \<in> set results. multiple_valid ?pool ?keys q" by blast
  have m: "make_multiple_choice nouns_of arts cnt rng = Inr (results, rng')"
    using l by (simp add: make_multiple_choice_def)
  from v have "\<forall>q \<in> set results. \<exists>chosen ds opts. set chosen \<subseteq> ?keys \<and> distinct chosen
        \<and> 2 \<le> length chosen \<and> length chosen \<le> 4
        \<and> set ds \<subseteq> set ?pool \<and> ds \<noteq> [] \<and> (\<forall>d \<in> set ds. d \<notin> set (map multiple_correct chosen))
        \<and> options q = Some opts
        \<and> mset opts = mset (map multiple_correct chosen @ ds)
        \<and> answer q = Letters (map (\<lambda>i. [65 + i])
              (filter (\<lambda>i. opts ! i \<in> set (map multiple_correct chosen)) [0..<length opts]))
        \<and> length (filter (\<lambda>i. opts ! i \<in> set (map multiple_correct chosen)) [0..<length opts])
            = length chosen
        \<and> length chosen < length opts
        \<and> distinct opts \<and> length opts \<le> 5
        \<and> length ds = min (5 - length chosen) (length ?pool)
        \<and> (\<exists>ls. answer q = Letters ls \<and> length ls = length chosen
              \<and> (\<forall>i < length opts.
                    ([65 + i] \<in> set ls) = (opts ! i \<in> set (map multiple_correct chosen))))"
    using multiple_valid_positions[OF _ pe] by blast
  with m show ?thesis by blast
qed

theorem make_multiple_choice_answer_witness:
  "make_multiple_choice (\<lambda>t. []) [example_article] 1 [] =
     Inr ([\<lparr> qtype = Multiple,
              question = multiple_qtext [31532, 49, 26465]
                           [20844, 27665, 24212, 24403, 36981, 23432, 27861, 24459, 12290],
              options = Some [multiple_correct [31105, 27490], distractor_of [24212, 24403],
                 distractor_of [31105, 27490], multiple_correct [24212, 24403]],
              answer = Letters [[65], [68]],
              source = ([115, 46, 100, 111, 99, 120], [31532, 49, 26465]) \<rparr>], [])
   \<and> (\<exists>chosen ds. distinct chosen \<and> 2 \<le> length chosen \<and> ds \<noteq> []
       \<and> mset [multiple_correct [31105, 27490], distractor_of [24212, 24403],
                 distractor_of [31105, 27490], multiple_correct [24212, 24403]] = mset (map multiple_correct chosen @ ds)
       \<and> Letters [[65], [68]] = Letters (map (\<lambda>i. [65 + i])
              (filter (\<lambda>i. [multiple_correct [31105, 27490], distractor_of [24212, 24403],
                 distractor_of [31105, 27490], multiple_correct [24212, 24403]] ! i
                             \<in> set (map multiple_correct chosen))
                 [0..<length [multiple_correct [31105, 27490], distractor_of [24212, 24403],
                 distractor_of [31105, 27490], multiple_correct [24212, 24403]]]))
       \<and> length chosen < length [multiple_correct [31105, 27490], distractor_of [24212, 24403],
                 distractor_of [31105, 27490], multiple_correct [24212, 24403]]
       \<and> multiple_correct [31105, 27490] \<in> set (map multiple_correct chosen)
       \<and> distractor_of [24212, 24403] \<notin> set (map multiple_correct chosen)
       \<and> distractor_of [31105, 27490] \<notin> set (map multiple_correct chosen)
       \<and> multiple_correct [24212, 24403] \<in> set (map multiple_correct chosen))
   \<and> distinct [multiple_correct [31105, 27490], distractor_of [24212, 24403],
                 distractor_of [31105, 27490], multiple_correct [24212, 24403]]"
proof -
  let ?q = "\<lparr> qtype = Multiple,
              question = multiple_qtext [31532, 49, 26465]
                           [20844, 27665, 24212, 24403, 36981, 23432, 27861, 24459, 12290],
              options = Some [multiple_correct [31105, 27490], distractor_of [24212, 24403],
                 distractor_of [31105, 27490], multiple_correct [24212, 24403]],
              answer = Letters [[65], [68]],
              source = ([115, 46, 100, 111, 99, 120], [31532, 49, 26465]) \<rparr>"
  let ?opts = "[multiple_correct [31105, 27490], distractor_of [24212, 24403],
                 distractor_of [31105, 27490], multiple_correct [24212, 24403]]"
  have ex: "make_multiple_choice (\<lambda>t. []) [example_article] 1 [] = Inr ([?q], [])"
    using example_multiple by (simp add: letter_def)
  from make_multiple_choice_answer [of "\<lambda>t. []" "[example_article]" 1 "[]"]
  obtain results r' where
    m: "make_multiple_choice (\<lambda>t. []) [example_article] 1 [] = Inr (results, r')" and
    a: "\<forall>q \<in> set results. \<exists>chosen ds opts.
           set chosen \<subseteq> (\<Union>art \<in> set [example_article].
                            set (pick_keywords (extract_entities (\<lambda>t. []) (body art)) 6))
         \<and> distinct chosen \<and> 2 \<le> length chosen \<and> length chosen \<le> 4
         \<and> set ds \<subseteq> set (build_distractor_pool (\<lambda>t. []) [example_article]) \<and> ds \<noteq> []
         \<and> (\<forall>d \<in> set ds. d \<notin> set (map multiple_correct chosen))
         \<and> options q = Some opts
         \<and> mset opts = mset (map multiple_correct chosen @ ds)
         \<and> answer q = Letters (map (\<lambda>i. [65 + i])
              (filter (\<lambda>i. opts ! i \<in> set (map multiple_correct chosen)) [0..<length opts]))
         \<and> length (filter (\<lambda>i. opts ! i \<in> set (map multiple_correct chosen)) [0..<length opts])
             = length chosen
         \<and> length chosen < length opts
         \<and> distinct opts \<and> length opts \<le> 5
         \<and> length ds = min (5 - length chosen)
               (length (build_distractor_pool (\<lambda>t. []) [example_article]))
         \<and> (\<exists>ls. answer q = Letters ls \<and> length ls = length chosen
               \<and> (\<forall>i < length opts.
                     ([65 + i] \<in> set ls) = (opts ! i \<in> set (map multiple_correct chosen))))"
    by blast
  have "results = [?q]" using m ex by simp
  then have "?q \<in> set results" by simp
  from a [rule_format, OF this] obtain chosen ds opts where
    k1: "distinct chosen" and k2: "2 \<le> length chosen" and k3: "ds \<noteq> []"
    and k4: "options ?q = Some opts"
    and k5: "mset opts = mset (map multiple_correct chosen @ ds)"
    and k6: "answer ?q = Letters (map (\<lambda>i. [65 + i])
              (filter (\<lambda>i. opts ! i \<in> set (map multiple_correct chosen)) [0..<length opts]))"
    and k7: "length chosen < length opts"
    and k8: "distinct opts"
    and k9: "\<exists>ls. answer ?q = Letters ls \<and> length ls = length chosen
               \<and> (\<forall>i < length opts.
                     ([65 + i] \<in> set ls) = (opts ! i \<in> set (map multiple_correct chosen)))"
    by blast
  from k4 have o: "opts = ?opts" by simp
  from k6 have l: "Letters [[65], [68]] = Letters (map (\<lambda>i. [65 + i])
              (filter (\<lambda>i. opts ! i \<in> set (map multiple_correct chosen)) [0..<length opts]))"
    by simp
  from k9 have p: "\<forall>i < length opts.
       ([65 + i] \<in> set [[65], [68 :: nat]]) = (opts ! i \<in> set (map multiple_correct chosen))"
    by auto
  have p0: "multiple_correct [31105, 27490] \<in> set (map multiple_correct chosen)"
    using p[rule_format, of 0] unfolding o by simp
  have p1: "distractor_of [24212, 24403] \<notin> set (map multiple_correct chosen)"
    using p[rule_format, of 1] unfolding o by simp
  have p2: "distractor_of [31105, 27490] \<notin> set (map multiple_correct chosen)"
    using p[rule_format, of 2] unfolding o by simp
  have p3: "multiple_correct [24212, 24403] \<in> set (map multiple_correct chosen)"
    using p[rule_format, of 3] unfolding o by simp
  have e: "\<exists>chosen ds. distinct chosen \<and> 2 \<le> length chosen \<and> ds \<noteq> []
       \<and> mset ?opts = mset (map multiple_correct chosen @ ds)
       \<and> Letters [[65], [68]] = Letters (map (\<lambda>i. [65 + i])
              (filter (\<lambda>i. ?opts ! i \<in> set (map multiple_correct chosen)) [0..<length ?opts]))
       \<and> length chosen < length ?opts
       \<and> multiple_correct [31105, 27490] \<in> set (map multiple_correct chosen)
       \<and> distractor_of [24212, 24403] \<notin> set (map multiple_correct chosen)
       \<and> distractor_of [31105, 27490] \<notin> set (map multiple_correct chosen)
       \<and> multiple_correct [24212, 24403] \<in> set (map multiple_correct chosen)"
    apply (rule exI[of _ chosen], rule exI[of _ ds])
    apply (intro conjI)
    by (rule k1 k2 k3 k5[unfolded o] l[unfolded o] k7[unfolded o] p0 p1 p2 p3)+
  show ?thesis
    by (intro conjI) (rule ex e k8[unfolded o])+
qed

text \<open>
  C6, as the code has it. \<^verbatim>\<open>make_fill_blank\<close> never raises, and every question it returns
  comes from an article of the list: the answer is one of the article's candidate targets (a
  key term or a run of digits, never empty); the text that was blanked is the article's
  whole text or one of its sentences, and it contains the target verbatim; the question is
  that text with the first occurrence of the target replaced by the blank marker. The marker
  therefore occurs at least once, and exactly once unless the text that was blanked
  contained the marker already. Every candidate target occurs in the article's raw text, so
  the text chosen by \<^verbatim>\<open>blank_text\<close> (the sentence when it contains the target, the whole
  text otherwise) always contains the target: the marker is never put into a text lacking it.
\<close>

theorem make_fill_blank_containment:
  "(\<exists>results rng'. make_fill_blank nouns_of arts cnt rng = Inr (results, rng')
      \<and> (\<forall>q \<in> set results. \<exists>art \<in> set arts. \<exists>target sent pre post.
            options q = None \<and> answer q = Str target \<and> target \<noteq> []
          \<and> target \<in> set (terms (extract_entities nouns_of (body art))
                            @ numbers (extract_entities nouns_of (body art)))
          \<and> (sent = body art \<or> sent \<in> set (sentences (extract_entities nouns_of (body art))))
          \<and> sent = pre @ target @ post \<and> \<not> contains target (pre @ butlast target)
          \<and> question q = pre @ blank_marker @ post
          \<and> 1 \<le> occurrences blank_marker (question q)
          \<and> (contains blank_marker sent \<or> occurrences blank_marker (question q) = 1)))
   \<and> (\<forall>target \<in> set (terms (extract_entities nouns_of (body art1))
                        @ numbers (extract_entities nouns_of (body art1))).
         contains target (body art1)
       \<and> contains target (blank_text target chosen art1)
       \<and> (\<not> contains target chosen \<longrightarrow> blank_text target chosen art1 = body art1)
       \<and> (contains target chosen \<longrightarrow> blank_text target chosen art1 = chosen))"
proof -
  have "\<exists>results' rng'.
           fill_blank_loop nouns_of cnt arts ([], rng) = Inr (results', rng')
           \<and> (\<forall>q \<in> set results'. \<exists>art \<in> set arts. fill_valid nouns_of art q)"
    by (rule fill_blank_loop_results) simp_all
  then obtain results rng' where
    m: "make_fill_blank nouns_of arts cnt rng = Inr (results, rng')"
    and v: "\<forall>q \<in> set results. \<exists>art \<in> set arts. fill_valid nouns_of art q"
    unfolding make_fill_blank_def by blast
  have A: "\<exists>art \<in> set arts. \<exists>target sent pre post.
            options q = None \<and> answer q = Str target \<and> target \<noteq> []
          \<and> target \<in> set (terms (extract_entities nouns_of (body art))
                            @ numbers (extract_entities nouns_of (body art)))
          \<and> (sent = body art \<or> sent \<in> set (sentences (extract_entities nouns_of (body art))))
          \<and> sent = pre @ target @ post \<and> \<not> contains target (pre @ butlast target)
          \<and> question q = pre @ blank_marker @ post
          \<and> 1 \<le> occurrences blank_marker (question q)
          \<and> (contains blank_marker sent \<or> occurrences blank_marker (question q) = 1)"
    if "q \<in> set results" for q
  proof -
    from v that obtain art where art: "art \<in> set arts" and f: "fill_valid nouns_of art q" by blast
    from f obtain target sent pre post where
      "options q = None" "answer q = Str target" "target \<noteq> []"
      "target \<in> set (terms (extract_entities nouns_of (body art))
                            @ numbers (extract_entities nouns_of (body art)))"
      "sent = body art \<or> sent \<in> set (sentences (extract_entities nouns_of (body art)))"
      "sent = pre @ target @ post" "\<not> contains target (pre @ butlast target)"
      "question q = pre @ blank_marker @ post"
      "1 \<le> occurrences blank_marker (question q)"
      "contains blank_marker sent \<or> occurrences blank_marker (question q) = 1"
      unfolding fill_valid_def by blast
    then show ?thesis using art
      by (intro bexI[of _ art] exI[of _ target] exI[of _ sent] exI[of _ pre] exI[of _ post]) simp_all
  qed
  have B: "contains target (body art1)
       \<and> contains target (blank_text target chosen art1)
       \<and> (\<not> contains target chosen \<longrightarrow> blank_text target chosen art1 = body art1)
       \<and> (contains target chosen \<longrightarrow> blank_text target chosen art1 = chosen)"
    if "target \<in> set (terms (extract_entities nouns_of (body art1))
                        @ numbers (extract_entities nouns_of (body art1)))" for target
    using candidate_in_text[OF that] by (simp add: blank_text_def)
  from m A B show ?thesis by blast
qed

text \<open>
  C6 as stated fails where the article's text already contains the marker: the question
  then has the marker twice.
\<close>

theorem make_fill_blank_marker_counterexample:
  "make_fill_blank (\<lambda>t. []) [example_article_marker] 1 [] =
     Inr ([\<lparr> qtype = Fill,
              question = blank_marker @ blank_marker @ [12290],
              options = None, answer = Str [24212, 24403],
              source = ([115, 46, 100, 111, 99, 120], [31532, 51, 26465]) \<rparr>], [])
   \<and> occurrences blank_marker (blank_marker @ blank_marker @ [12290]) = 2"
proof -
  have "occurrences blank_marker (blank_marker @ blank_marker @ [12290]) = 2"
    by (simp add: blank_marker_def)
  with example_fill_marker show ?thesis by (rule conjI)
qed

theorem make_fill_blank_containment_witness:
  "make_fill_blank (\<lambda>t. []) [example_article] 1 [0, 4] =
     Inr ([\<lparr> qtype = Fill,
              question = [20844, 27665] @ blank_marker
                 @ [36981, 23432, 27861, 24459, 12290, 31105, 27490, 28389, 29992, 26435, 21033, 12290, 22909, 12290],
              options = None, answer = Str [24212, 24403],
              source = ([115, 46, 100, 111, 99, 120], [31532, 49, 26465]) \<rparr>], [])
   \<and> occurrences blank_marker ([20844, 27665] @ blank_marker
                 @ [36981, 23432, 27861, 24459, 12290, 31105, 27490, 28389, 29992, 26435, 21033, 12290, 22909, 12290]) = 1
   \<and> [24212, 24403] \<in> set (terms (extract_entities (\<lambda>t. []) (body example_article))
                        @ numbers (extract_entities (\<lambda>t. []) (body example_article)))
   \<and> \<not> contains ([24212, 24403] :: ustr) [31105, 27490, 28389, 29992, 26435, 21033, 12290]
   \<and> contains [24212, 24403] (body example_article)
   \<and> blank_text [24212, 24403] [31105, 27490, 28389, 29992, 26435, 21033, 12290] example_article
       = body example_article"
proof -
  let ?q = "\<lparr> qtype = Fill,
              question = [20844, 27665] @ blank_marker
                 @ [36981, 23432, 27861, 24459, 12290, 31105, 27490, 28389, 29992, 26435, 21033, 12290, 22909, 12290],
              options = None, answer = Str [24212, 24403],
              source = ([115, 46, 100, 111, 99, 120], [31532, 49, 26465]) \<rparr>"
  have t: "[24212, 24403] \<in> set (terms (extract_entities (\<lambda>t. []) (body example_article))
                        @ numbers (extract_entities (\<lambda>t. []) (body example_article)))"
    by (simp add: example_article_entities)
  have nc: "\<not> contains ([24212, 24403] :: ustr) [31105, 27490, 28389, 29992, 26435, 21033, 12290]" by simp
  note th = make_fill_blank_containment [of "\<lambda>t. []" "[example_article]" 1 "[0, 4]"
      example_article "[31105, 27490, 28389, 29992, 26435, 21033, 12290]"]
  from th obtain results r' where
    m: "make_fill_blank (\<lambda>t. []) [example_article] 1 [0, 4] = Inr (results, r')" and
    a: "\<forall>q \<in> set results. \<exists>art \<in> set [example_article]. \<exists>target sent pre post.
            options q = None \<and> answer q = Str target \<and> target \<noteq> []
          \<and> target \<in> set (terms (extract_entities (\<lambda>t. []) (body art))
                            @ numbers (extract_entities (\<lambda>t. []) (body art)))
          \<and> (sent = body art \<or> sent \<in> set (sentences (extract_entities (\<lambda>t. []) (body art))))
          \<and> sent = pre @ target @ post \<and> \<not> contains target (pre @ butlast target)
          \<and> question q = pre @ blank_marker @ post
          \<and> 1 \<le> occurrences blank_marker (question q)
          \<and> (contains blank_marker sent \<or> occurrences blank_marker (question q) = 1)"
    by blast
  from th t have b: "contains [24212, 24403] (body example_article)
       \<and> contains [24212, 24403] (blank_text [24212, 24403] [31105, 27490, 28389, 29992, 26435, 21033, 12290] example_article)
       \<and> (\<not> contains ([24212, 24403] :: ustr) [31105, 27490, 28389, 29992, 26435, 21033, 12290]
            \<longrightarrow> blank_text [24212, 24403] [31105, 27490, 28389, 29992, 26435, 21033, 12290] example_article = body example_article)"
    by blast
  have "results = [?q]" using m example_fill by simp
  then have "?q \<in> set results" by simp
  from a [rule_format, OF this] obtain sent where
    s: "sent = body example_article
        \<or> sent \<in> set (sentences (extract_entities (\<lambda>t. []) (body example_article)))"
    and o: "contains blank_marker sent \<or> occurrences blank_marker (question ?q) = 1"
    by auto
  from s have "\<not> contains blank_marker sent"
    using example_article_no_marker by (auto simp: example_article_entities)
  with o have one: "occurrences blank_marker ([20844, 27665] @ blank_marker
                 @ [36981, 23432, 27861, 24459, 12290, 31105, 27490, 28389, 29992, 26435, 21033, 12290, 22909, 12290]) = 1"
    by simp
  from b nc have bt: "blank_text [24212, 24403] [31105, 27490, 28389, 29992, 26435, 21033, 12290] example_article = body example_article"
    and cb: "contains [24212, 24403] (body example_article)" by blast+
  show ?thesis
    by (intro conjI) (rule example_fill one t nc cb bt)+
qed

text \<open>
  C2, as the code has it. \<^verbatim>\<open>assemble_exam\<close> reads two random sources. The four calls of
  \<^verbatim>\<open>weighted_sample\<close> draw from the module-level source of \<^verbatim>\<open>random\<close> only: whether
  the call raises, and the state in which it leaves that source, do not depend on the
  \<open>rng\<close> passed in, and nothing but the sampling can raise. The generators draw from
  \<open>rng\<close> only: the exam and the final state of \<open>rng\<close> depend on the module-level source
  through the four sampled lists alone. The result is a function of the articles, the
  configuration and the states of both sources.
\<close>

theorem assemble_exam_sources:
  "((\<exists>e. sample_articles articles cfg g = Inl e
          \<and> assemble_exam nouns_of articles cfg rng g = Inl e
          \<and> assemble_exam nouns_of articles cfg rng2 g = Inl e)
    \<or> (\<exists>samples g' ex r ex2 r2. sample_articles articles cfg g = Inr (samples, g')
          \<and> assemble_exam nouns_of articles cfg rng g = Inr (ex, r, g')
          \<and> assemble_exam nouns_of articles cfg rng2 g = Inr (ex2, r2, g')))
   \<and> (map_sum id fst (sample_articles articles cfg g1) = map_sum id fst (sample_articles articles cfg g2)
        \<longrightarrow> map_sum id (\<lambda>(ex, r, h). (ex, r)) (assemble_exam nouns_of articles cfg rng g1)
            = map_sum id (\<lambda>(ex, r, h). (ex, r)) (assemble_exam nouns_of articles cfg rng g2))"
proof -
  have A: "(\<exists>e. sample_articles articles cfg g = Inl e
          \<and> assemble_exam nouns_of articles cfg rng g = Inl e
          \<and> assemble_exam nouns_of articles cfg rng2 g = Inl e)
    \<or> (\<exists>samples g' ex r ex2 r2. sample_articles articles cfg g = Inr (samples, g')
          \<and> assemble_exam nouns_of articles cfg rng g = Inr (ex, r, g')
          \<and> assemble_exam nouns_of articles cfg rng2 g = Inr (ex2, r2, g'))"
  proof (cases "sample_articles articles cfg g")
    case (Inl e)
    then show ?thesis using assemble_exam_Inl by blast
  next
    case (Inr p)
    obtain tf sc mc fb g' where p: "p = ((tf, sc, mc, fb), g')" by (cases p) auto
    from assemble_exam_Inr[OF Inr[unfolded p], of nouns_of rng]
      assemble_exam_Inr[OF Inr[unfolded p], of nouns_of rng2] Inr p
    show ?thesis by blast
  qed
  have B: "map_sum id (\<lambda>(ex, r, h). (ex, r)) (assemble_exam nouns_of articles cfg rng g1)
            = map_sum id (\<lambda>(ex, r, h). (ex, r)) (assemble_exam nouns_of articles cfg rng g2)"
    if eq: "map_sum id fst (sample_articles articles cfg g1)
              = map_sum id fst (sample_articles articles cfg g2)"
  proof (cases "sample_articles articles cfg g1")
    case (Inl e)
    with eq have "sample_articles articles cfg g2 = Inl e"
      by (cases "sample_articles articles cfg g2") auto
    with Inl show ?thesis by (simp add: assemble_exam_Inl)
  next
    case (Inr p)
    obtain tf sc mc fb h1 where p: "p = ((tf, sc, mc, fb), h1)" by (cases p) auto
    with eq Inr obtain h2 where 2: "sample_articles articles cfg g2 = Inr ((tf, sc, mc, fb), h2)"
      by (cases "sample_articles articles cfg g2") auto
    from assemble_exam_Inr[OF Inr[unfolded p], of nouns_of rng]
      assemble_exam_Inr[OF 2, of nouns_of rng]
    show ?thesis by auto
  qed
  from A B show ?thesis by blast
qed

text \<open>
  C2 as stated fails: with the same articles, configuration and state of \<open>rng\<close>, two
  states of the module-level source give two different exams.
\<close>

theorem assemble_exam_other_source_counterexample:
  "map_sum id fst (assemble_exam (\<lambda>t. []) [example_article, example_article_marker]
                     example_config [] []) =
     Inr (\<lparr> true_false = [\<lparr> qtype = TrueFalse, question = [20844, 27665, 19981, 24471, 36981, 23432, 27861, 24459, 12290],
                 options = Some [dui, cuo], answer = Str cuo,
                 source = ([115, 46, 100, 111, 99, 120], [31532, 49, 26465]) \<rparr>],
           single = [], multiple = [], fill = [], short = [] \<rparr>)
   \<and> map_sum id fst (assemble_exam (\<lambda>t. []) [example_article, example_article_marker]
                     example_config [] [9007199254740991, 9007199254740991]) =
     Inr (\<lparr> true_false = [\<lparr> qtype = TrueFalse, question = blank_marker @ [19981, 24471, 12290],
                 options = Some [dui, cuo], answer = Str cuo,
                 source = ([115, 46, 100, 111, 99, 120], [31532, 51, 26465]) \<rparr>],
           single = [], multiple = [], fill = [], short = [] \<rparr>)
   \<and> [20844, 27665, 19981, 24471, 36981, 23432, 27861, 24459, 12290]
       \<noteq> blank_marker @ [19981, 24471, 12290]"
  by (simp add: example_exam_low example_exam_high blank_marker_def)

theorem assemble_exam_sources_witness:
  "map_sum id fst (sample_articles [example_article] example_config [])
     = map_sum id fst (sample_articles [example_article] example_config [5, 6])
   \<and> sample_articles [example_article] example_config []
       \<noteq> sample_articles [example_article] example_config [5, 6]
   \<and> map_sum id (\<lambda>(ex, r, h). (ex, r))
         (assemble_exam (\<lambda>t. []) [example_article] example_config [] [])
     = map_sum id (\<lambda>(ex, r, h). (ex, r))
         (assemble_exam (\<lambda>t. []) [example_article] example_config [] [5, 6])"
  using assemble_exam_sources [of "[example_article]" example_config "[]" "\<lambda>t. []" "[]" "[]"
      "[]" "[5, 6]"]
  by (simp add: example_sample_one)

end
